theory Spec2Isabelle
  imports Complex_Main "HOL-Library.While_Combinator" "HOL-Library.AList"
begin

section \<open>Constants of the game (src/main.py, lines 10-37)\<close>

text \<open>
  The screen size is a pair of module-level globals that the resize handler of
  \<open>Game.run\<close> overwrites, so every function that reads them takes them as the
  arguments \<open>sw\<close> (SCREEN_WIDTH) and \<open>sh\<close> (SCREEN_HEIGHT). The other settings
  are never assigned again and are constants here. Python floats are read as real
  numbers: rounding of the floating-point arithmetic is not modelled.
\<close>

definition SCREEN_WIDTH :: int where "SCREEN_WIDTH = 1920"
definition SCREEN_HEIGHT :: int where "SCREEN_HEIGHT = 1020"
definition TANK_SIZE :: int where "TANK_SIZE = 30"
definition TANK_SPEED :: int where "TANK_SPEED = 5"
definition ROTATION_SPEED :: int where "ROTATION_SPEED = 2"
definition BULLET_SPEED :: int where "BULLET_SPEED = 10"
definition BULLET_SIZE :: int where "BULLET_SIZE = 6"
definition TILE_WIDTH :: int where "TILE_WIDTH = 70"
definition TILE_HEIGHT :: int where "TILE_HEIGHT = 45"
definition BORDER_THICKNESS :: int where "BORDER_THICKNESS = 0"
definition MATCH_SECONDS :: int where "MATCH_SECONDS = 90"

section \<open>Rectangles of the graphics library\<close>

text \<open>
  \<open>pygame.Rect\<close> stores four integers; a float argument is converted by dropping
  its fractional part. \<open>colliderect\<close> is the library's overlap test: rectangles of
  zero width or height collide with nothing, and touching edges do not overlap.
\<close>

record Rect =
  rect_x :: int
  rect_y :: int
  rect_w :: int
  rect_h :: int

definition py_trunc :: "real \<Rightarrow> int" where
  "py_trunc v = (if 0 \<le> v then \<lfloor>v\<rfloor> else \<lceil>v\<rceil>)"

definition pygame_Rect :: "real \<Rightarrow> real \<Rightarrow> real \<Rightarrow> real \<Rightarrow> Rect" where
  "pygame_Rect l t w h =
     \<lparr>rect_x = py_trunc l, rect_y = py_trunc t, rect_w = py_trunc w, rect_h = py_trunc h\<rparr>"

definition rect_left :: "Rect \<Rightarrow> int" where "rect_left r = rect_x r"
definition rect_right :: "Rect \<Rightarrow> int" where "rect_right r = rect_x r + rect_w r"
definition rect_top :: "Rect \<Rightarrow> int" where "rect_top r = rect_y r"
definition rect_bottom :: "Rect \<Rightarrow> int" where "rect_bottom r = rect_y r + rect_h r"

definition colliderect :: "Rect \<Rightarrow> Rect \<Rightarrow> bool" where
  "colliderect a b \<longleftrightarrow>
     rect_w a \<noteq> 0 \<and> rect_h a \<noteq> 0 \<and> rect_w b \<noteq> 0 \<and> rect_h b \<noteq> 0 \<and>
     min (rect_x a) (rect_x a + rect_w a) < max (rect_x b) (rect_x b + rect_w b) \<and>
     min (rect_y a) (rect_y a + rect_h a) < max (rect_y b) (rect_y b + rect_h b) \<and>
     max (rect_x a) (rect_x a + rect_w a) > min (rect_x b) (rect_x b + rect_w b) \<and>
     max (rect_y a) (rect_y a + rect_h a) > min (rect_y b) (rect_y b + rect_h b)"

section \<open>Tiles (class Tile)\<close>

record Tile =
  grid_x :: int
  grid_y :: int
  collidable :: bool

definition Tile_rect :: "Tile \<Rightarrow> Rect" where
  "Tile_rect t =
     pygame_Rect (of_int (grid_x t * TILE_WIDTH)) (of_int (grid_y t * TILE_HEIGHT))
       (of_int TILE_WIDTH) (of_int TILE_HEIGHT)"

definition collides :: "Tile \<Rightarrow> bool" where
  "collides t = collidable t"

section \<open>Bullets (class Bullet)\<close>

text \<open>
  The owner of a bullet is a reference to a tank; it is the index of that tank in
  the game's tank list. Angles are integers of degrees: a bullet takes the angle of the
  tank that fires it, which starts at 0 and changes by steps of ROTATION_SPEED.
\<close>

record Bullet =
  bullet_x :: real
  bullet_y :: real
  bullet_angle :: int
  bullet_owner :: nat
  bullet_speed :: int
  bullet_size :: int
  bounces :: int
  max_bounces :: int
  active :: bool

definition Bullet_init :: "real \<Rightarrow> real \<Rightarrow> int \<Rightarrow> nat \<Rightarrow> Bullet" where
  "Bullet_init x y a ow =
     \<lparr>bullet_x = x, bullet_y = y, bullet_angle = a, bullet_owner = ow,
      bullet_speed = BULLET_SPEED, bullet_size = BULLET_SIZE,
      bounces = 0, max_bounces = 4, active = True\<rparr>"

definition cos_deg :: "int \<Rightarrow> real" where
  \<comment> \<open>\<open>math.cos(math.radians(a))\<close>\<close>
  "cos_deg a = cos (of_int a * pi / 180)"

definition sin_deg :: "int \<Rightarrow> real" where
  \<comment> \<open>\<open>math.sin(math.radians(a))\<close>\<close>
  "sin_deg a = sin (of_int a * pi / 180)"

definition bullet_rect :: "Bullet \<Rightarrow> Rect" where
  "bullet_rect b =
     pygame_Rect (bullet_x b - of_int (bullet_size b) / 2) (bullet_y b - of_int (bullet_size b) / 2)
       (of_int (bullet_size b)) (of_int (bullet_size b))"

definition x_breach :: "int \<Rightarrow> Bullet \<Rightarrow> bool" where
  \<comment> \<open>the test of line 211: the box is over the left or the right edge\<close>
  "x_breach sw b \<longleftrightarrow>
     bullet_x b - of_int (bullet_size b) / 2 < of_int BORDER_THICKNESS \<or>
     bullet_x b + of_int (bullet_size b) / 2 > of_int (sw - BORDER_THICKNESS)"

definition y_breach :: "int \<Rightarrow> Bullet \<Rightarrow> bool" where
  \<comment> \<open>the second line of the test of lines 203-204: the box is over the top or the bottom edge\<close>
  "y_breach sh b \<longleftrightarrow>
     bullet_y b - of_int (bullet_size b) / 2 < of_int BORDER_THICKNESS \<or>
     bullet_y b + of_int (bullet_size b) / 2 > of_int (sh - BORDER_THICKNESS)"

definition advance :: "Bullet \<Rightarrow> Bullet" where
  \<comment> \<open>lines 195-196\<close>
  "advance b =
     b\<lparr>bullet_x := bullet_x b + cos_deg (bullet_angle b) * of_int (bullet_speed b),
       bullet_y := bullet_y b - sin_deg (bullet_angle b) * of_int (bullet_speed b)\<rparr>"

definition off_screen :: "int \<Rightarrow> int \<Rightarrow> Bullet \<Rightarrow> Bullet" where
  \<comment> \<open>lines 246-247\<close>
  "off_screen sw sh b =
     (if bullet_x b < 0 \<or> bullet_x b > of_int sw \<or> bullet_y b < 0 \<or> bullet_y b > of_int sh
      then b\<lparr>active := False\<rparr> else b)"

text \<open>
  The loop over the tiles (lines 218-243). The result says whether the method returned
  from inside the loop (\<open>True\<close>: the bounce budget ran out) or went on to the final check
  of the screen bounds after the loop ended or broke.
\<close>

fun tile_loop :: "Rect \<Rightarrow> Tile list \<Rightarrow> Bullet \<Rightarrow> bool \<times> Bullet" where
  "tile_loop br [] b = (False, b)"
| "tile_loop br (tile # tiles) b =
     (if \<not> collides tile then tile_loop br tiles b
      else if colliderect br (Tile_rect tile) then
        (let b1 = b\<lparr>bounces := bounces b + 1\<rparr> in
         if bounces b1 > max_bounces b1 then (True, b1\<lparr>active := False\<rparr>)
         else
           (let overlap_left = rect_right br - rect_left (Tile_rect tile);
                overlap_right = rect_right (Tile_rect tile) - rect_left br;
                overlap_top = rect_bottom br - rect_top (Tile_rect tile);
                overlap_bottom = rect_bottom (Tile_rect tile) - rect_top br;
                min_overlap = min (min (min overlap_left overlap_right) overlap_top) overlap_bottom;
                b2 = (if min_overlap = overlap_top \<or> min_overlap = overlap_bottom
                      then b1\<lparr>bullet_angle := - bullet_angle b1\<rparr>
                      else b1\<lparr>bullet_angle := 180 - bullet_angle b1\<rparr>)
            in (False,
                b2\<lparr>bullet_x := bullet_x b2 + cos_deg (bullet_angle b2) * of_int (bullet_speed b2) * 2,
                   bullet_y := bullet_y b2 - sin_deg (bullet_angle b2) * of_int (bullet_speed b2) * 2\<rparr>)))
      else tile_loop br tiles b)"

definition Bullet_update :: "int \<Rightarrow> int \<Rightarrow> Tile list \<Rightarrow> Bullet \<Rightarrow> Bullet" where
  "Bullet_update sw sh tiles b =
     (if \<not> active b then b
      else
        (let b1 = advance b; br = bullet_rect b1 in
         if x_breach sw b1 \<or> y_breach sh b1 then
           (let b2 = b1\<lparr>bounces := bounces b1 + 1\<rparr> in
            if bounces b2 > max_bounces b2 then b2\<lparr>active := False\<rparr>
            else if x_breach sw b2 then b2\<lparr>bullet_angle := 180 - bullet_angle b2\<rparr>
            else b2\<lparr>bullet_angle := - bullet_angle b2\<rparr>)
         else
           (case tile_loop br tiles b1 of
              (True, b3) \<Rightarrow> b3
            | (False, b3) \<Rightarrow> off_screen sw sh b3)))"

text \<open>
  What can happen to a bullet between two frames: its owner's \<open>Tank.update\<close> calls
  \<open>Bullet.update\<close> (with the screen size and the tiles of that frame), or
  \<open>Game.check_collisions\<close> finds it on a tank and clears its active flag.
\<close>

datatype bullet_event = Tick int int "Tile list" | Hit

fun bullet_step :: "bullet_event \<Rightarrow> Bullet \<Rightarrow> Bullet" where
  "bullet_step (Tick sw sh tiles) b = Bullet_update sw sh tiles b"
| "bullet_step Hit b = b\<lparr>active := False\<rparr>"

fun bullet_run :: "bullet_event list \<Rightarrow> Bullet \<Rightarrow> Bullet" where
  "bullet_run [] b = b"
| "bullet_run (e # es) b = bullet_run es (bullet_step e b)"

definition bullet_inv :: "Bullet \<Rightarrow> bool" where
  "bullet_inv b \<longleftrightarrow> max_bounces b = 4 \<and> bounces b \<le> 5 \<and> (active b \<longrightarrow> bounces b \<le> 4)"

section \<open>Tanks (class Tank)\<close>

text \<open>
  The bullets of a tank are references to bullet objects: addresses in the bullet
  store of the game state below. Whether a movement sound was loaded is the flag
  \<open>move_sound\<close>; playing it has no effect on the state.
\<close>

datatype py_error = AttributeError | IndexError | KeyError | TypeError

datatype ai_state = patrol | pursue | attack

record Tank =
  tank_x :: real
  tank_y :: real
  tank_angle :: int
  tank_size :: int
  tank_speed :: int
  bullets :: "nat list"
  alive :: bool
  is_ai :: bool
  move_sound :: bool
  move_sound_cooldown :: int
  kills :: int
  suicides :: int
  deaths :: int
  spawn_point :: "real \<times> real"
  ai_state :: ai_state

definition Tank_init :: "real \<Rightarrow> real \<Rightarrow> bool \<Rightarrow> bool \<Rightarrow> (real \<times> real) option \<Rightarrow> Tank" where
  "Tank_init x y ai sound sp =
     \<lparr>tank_x = x, tank_y = y, tank_angle = 0, tank_size = TANK_SIZE, tank_speed = TANK_SPEED,
      bullets = [], alive = True, is_ai = ai, move_sound = sound, move_sound_cooldown = 0,
      kills = 0, suicides = 0, deaths = 0,
      spawn_point = (case sp of None \<Rightarrow> (x, y) | Some p \<Rightarrow> p),
      ai_state = patrol\<rparr>"

definition get_rect :: "Tank \<Rightarrow> Rect" where
  "get_rect t =
     pygame_Rect (tank_x t - of_int (tank_size t) / 2) (tank_y t - of_int (tank_size t) / 2)
       (of_int (tank_size t)) (of_int (tank_size t))"

text \<open>
  The loop of \<open>Tank.move\<close> (lines 318-323) and the loop of \<open>Tank.has_line_of_sight\<close>
  (lines 490-494) over the tiles: is there a tile that collides and whose rectangle
  overlaps the given one.
\<close>

fun hits_tile :: "Rect \<Rightarrow> Tile list \<Rightarrow> bool" where
  "hits_tile r [] = False"
| "hits_tile r (tile # tiles) =
     (if \<not> collides tile then hits_tile r tiles
      else if colliderect r (Tile_rect tile) then True
      else hits_tile r tiles)"

definition Tank_move :: "int \<Rightarrow> int \<Rightarrow> real \<Rightarrow> real \<Rightarrow> Tile list \<Rightarrow> Tank \<Rightarrow> Tank" where
  "Tank_move sw sh dx dy tiles t =
     (let new_x = tank_x t + dx;
          new_y = tank_y t + dy;
          border_thickness = max BORDER_THICKNESS (max TILE_WIDTH TILE_HEIGHT);
          can_move = True;
          can_move = (if new_x - of_int (tank_size t) / 2 < of_int border_thickness \<or>
                         new_x + of_int (tank_size t) / 2 > of_int (sw - border_thickness)
                      then False else can_move);
          can_move = (if new_y - of_int (tank_size t) / 2 < of_int border_thickness \<or>
                         new_y + of_int (tank_size t) / 2 > of_int (sh - border_thickness)
                      then False else can_move);
          can_move = (if can_move then
                        (let test_rect = pygame_Rect (new_x - of_int (tank_size t) / 2)
                                           (new_y - of_int (tank_size t) / 2)
                                           (of_int (tank_size t)) (of_int (tank_size t))
                         in if hits_tile test_rect tiles then False else can_move)
                      else can_move)
      in if can_move then
           (let t1 = t\<lparr>tank_x := new_x, tank_y := new_y\<rparr> in
            if move_sound t1 then
              (if move_sound_cooldown t1 \<le> 0 then t1\<lparr>move_sound_cooldown := 8\<rparr>
               else t1\<lparr>move_sound_cooldown := move_sound_cooldown t1 - 1\<rparr>)
            else t1)
         else t)"

section \<open>Top scorer (Game.draw_game_over, lines 1046-1058)\<close>

text \<open>
  The selection loop keeps the tank with the most kills so far (here its index in
  the list), that number of kills, and whether another tank has equalled it. The
  winner is the result of the test of line 1058: no winner (None) when no tank is kept,
  when the best count is not positive, or when there is a tie.
\<close>

fun top_loop :: "Tank list \<Rightarrow> nat \<Rightarrow> nat option \<times> int \<times> bool \<Rightarrow> nat option \<times> int \<times> bool" where
  "top_loop [] i st = st"
| "top_loop (t # ts) i (top_tank, top_kills, tie) =
     top_loop ts (i + 1)
       (if kills t > top_kills then (Some i, kills t, False)
        else if kills t = top_kills then (top_tank, top_kills, True)
        else (top_tank, top_kills, tie))"

definition winner :: "Tank list \<Rightarrow> nat option" where
  "winner ts =
     (case top_loop ts 0 (None, -1, False) of
        (top_tank, top_kills, tie) \<Rightarrow> if top_tank = None \<or> top_kills \<le> 0 \<or> tie then None else top_tank)"

section \<open>State selection of the computer player (Tank.update_ai, lines 371-382)\<close>

text \<open>
  \<open>has_line_of_sight\<close> probes 20 points of the segment from the tank towards the target
  with a 10 by 10 rectangle and fails at the first probe that overlaps a colliding tile.
\<close>

fun sight_loop :: "nat list \<Rightarrow> Tank \<Rightarrow> real \<Rightarrow> real \<Rightarrow> Tile list \<Rightarrow> bool" where
  "sight_loop [] self dx dy tiles = True"
| "sight_loop (i # is) self dx dy tiles =
     (let check_x = tank_x self + dx * of_nat i;
          check_y = tank_y self + dy * of_nat i;
          check_rect = pygame_Rect (check_x - 5) (check_y - 5) 10 10
      in if hits_tile check_rect tiles then False else sight_loop is self dx dy tiles)"

definition has_line_of_sight :: "Tank \<Rightarrow> Tank \<Rightarrow> Tile list \<Rightarrow> bool" where
  "has_line_of_sight self target tiles =
     (let steps = 20;
          dx = (tank_x target - tank_x self) / of_nat steps;
          dy = (tank_y target - tank_y self) / of_nat steps
      in sight_loop [0..<steps] self dx dy tiles)"

text \<open>
  The target that \<open>Game.run\<close> hands to the computer player at index i (lines 1132-1133):
  the first tank of the list that is another object and alive, or None.
\<close>

definition ai_target :: "Tank list \<Rightarrow> nat \<Rightarrow> Tank option" where
  "ai_target ts i =
     (case filter (\<lambda>j. j \<noteq> i \<and> alive (ts ! j)) [0..<length ts] of
        [] \<Rightarrow> None
      | j # js \<Rightarrow> Some (ts ! j))"

text \<open>
  The first part of \<open>update_ai\<close> (lines 371-382), which chooses \<open>ai_state\<close>; the rest of the
  method acts on the chosen state and does not assign it. The target is None or a tank.
  The guard of line 371 sets the state to patrol and falls through to line 375, which
  reads \<open>target_tank.x\<close>: on None that raises AttributeError, and the tank keeps the state
  assigned so far. The result is the error, if any, and the tank.
\<close>

definition distance_to :: "Tank \<Rightarrow> Tank \<Rightarrow> real" where
  "distance_to self target = sqrt ((tank_x self - tank_x target)\<^sup>2 + (tank_y self - tank_y target)\<^sup>2)"

definition update_ai_state :: "Tile list \<Rightarrow> Tank option \<Rightarrow> Tank \<Rightarrow> py_error option \<times> Tank" where
  "update_ai_state tiles target_tank self =
     (let self1 = (if target_tank = None \<or> \<not> alive (the target_tank)
                   then self\<lparr>ai_state := patrol\<rparr> else self)
      in case target_tank of
           None \<Rightarrow> (Some AttributeError, self1)
         | Some target \<Rightarrow>
             (let dist_to_target = distance_to self1 target
              in if dist_to_target < 200 \<and> has_line_of_sight self1 target tiles
                 then (None, self1\<lparr>ai_state := attack\<rparr>)
                 else if dist_to_target < 400 then (None, self1\<lparr>ai_state := pursue\<rparr>)
                 else (None, self1\<lparr>ai_state := patrol\<rparr>)))"

section \<open>The occupancy grid (Game.create_grid_map)\<close>

text \<open>
  The grid is a list of columns, each a list of cells. A store \<open>grid[x][y] = True\<close>
  raises IndexError outside the list, with Python's negative indices counting from the
  end; each loop stops at the first error.
\<close>

definition and_then :: "'e + 'a \<Rightarrow> ('a \<Rightarrow> 'e + 'b) \<Rightarrow> 'e + 'b" where
  "and_then r f = (case r of Inl e \<Rightarrow> Inl e | Inr v \<Rightarrow> f v)"

fun for_each :: "'a list \<Rightarrow> ('a \<Rightarrow> 's \<Rightarrow> 'e + 's) \<Rightarrow> 's \<Rightarrow> 'e + 's" where
  "for_each [] body s = Inr s"
| "for_each (a # as) body s = and_then (body a s) (for_each as body)"

definition py_range :: "int \<Rightarrow> int list" where
  "py_range n = map int [0..<nat n]"

definition py_index :: "nat \<Rightarrow> int \<Rightarrow> nat option" where
  "py_index n i =
     (if 0 \<le> i \<and> i < int n then Some (nat i)
      else if - int n \<le> i \<and> i < 0 then Some (nat (int n + i))
      else None)"

definition grid_store :: "bool list list \<Rightarrow> int \<Rightarrow> int \<Rightarrow> py_error + bool list list" where
  "grid_store grid x y =
     (case py_index (length grid) x of
        None \<Rightarrow> Inl IndexError
      | Some cx \<Rightarrow>
          (case py_index (length (grid ! cx)) y of
             None \<Rightarrow> Inl IndexError
           | Some cy \<Rightarrow> Inr (grid[cx := (grid ! cx)[cy := True]])))"

definition border_rows_body :: "int \<Rightarrow> int \<Rightarrow> int \<Rightarrow> bool list list \<Rightarrow> py_error + bool list list" where
  \<comment> \<open>lines 687-690, for one column x and one border row by\<close>
  "border_rows_body grid_h x by grid =
     and_then (if 0 \<le> by \<and> by < grid_h then grid_store grid x by else Inr grid) (\<lambda>grid.
       if 0 \<le> grid_h - 1 - by \<and> grid_h - 1 - by < grid_h
       then grid_store grid x (grid_h - 1 - by) else Inr grid)"

definition border_cols_body :: "int \<Rightarrow> int \<Rightarrow> int \<Rightarrow> bool list list \<Rightarrow> py_error + bool list list" where
  \<comment> \<open>lines 693-696, for one row y and one border column bx\<close>
  "border_cols_body grid_w y bx grid =
     and_then (if 0 \<le> bx \<and> bx < grid_w then grid_store grid bx y else Inr grid) (\<lambda>grid.
       if 0 \<le> grid_w - 1 - bx \<and> grid_w - 1 - bx < grid_w
       then grid_store grid (grid_w - 1 - bx) y else Inr grid)"

definition tile_body :: "int \<Rightarrow> int \<Rightarrow> Tile \<Rightarrow> bool list list \<Rightarrow> py_error + bool list list" where
  \<comment> \<open>lines 700-702\<close>
  "tile_body grid_w grid_h tile grid =
     (let x = grid_x tile; y = grid_y tile in
      if 0 \<le> x \<and> x < grid_w \<and> 0 \<le> y \<and> y < grid_h \<and> collides tile
      then grid_store grid x y else Inr grid)"

definition create_grid_map :: "int \<Rightarrow> int \<Rightarrow> Tile list \<Rightarrow> py_error + bool list list" where
  "create_grid_map sw sh tiles =
     (let grid_w = max 1 (sw div TILE_WIDTH);
          grid_h = max 1 (sh div TILE_HEIGHT);
          grid = replicate (nat grid_w) (replicate (nat grid_h) False);
          border_cols = max 1 \<lceil>of_int BORDER_THICKNESS / (of_int TILE_WIDTH :: real)\<rceil>;
          border_rows = max 1 \<lceil>of_int BORDER_THICKNESS / (of_int TILE_HEIGHT :: real)\<rceil>
      in
        and_then
          (for_each (py_range grid_w)
             (\<lambda>x. for_each (py_range border_rows) (border_rows_body grid_h x)) grid)
          (\<lambda>grid.
        and_then
          (for_each (py_range grid_h)
             (\<lambda>y. for_each (py_range border_cols) (border_cols_body grid_w y)) grid)
          (\<lambda>grid.
        for_each tiles (tile_body grid_w grid_h) grid)))"

definition grid_cell :: "py_error + bool list list \<Rightarrow> nat \<Rightarrow> nat \<Rightarrow> bool option" where
  \<comment> \<open>the cell (x, y) of a grid that was built, None if building failed or the cell is outside\<close>
  "grid_cell r x y =
     (case r of
        Inl e \<Rightarrow> None
      | Inr grid \<Rightarrow> if x < length grid \<and> y < length (grid ! x) then Some (grid ! x ! y) else None)"

text \<open>
  The wording of the specification for the border: the world rectangle of the cell
  (x, y) comes within the margin m of an edge of the world, touching included.
\<close>

definition within_border_margin :: "int \<Rightarrow> int \<Rightarrow> int \<Rightarrow> nat \<Rightarrow> nat \<Rightarrow> bool" where
  "within_border_margin m sw sh x y \<longleftrightarrow>
     int x * TILE_WIDTH \<le> m \<or> sw - (int x + 1) * TILE_WIDTH \<le> m \<or>
     int y * TILE_HEIGHT \<le> m \<or> sh - (int y + 1) * TILE_HEIGHT \<le> m"

text \<open>
  For the proofs: a grid of w columns of h cells, and a grid that differs from another
  one exactly by the cells that a predicate selects, which are set.
\<close>

definition rect_grid :: "nat \<Rightarrow> nat \<Rightarrow> bool list list \<Rightarrow> bool" where
  "rect_grid w h g \<longleftrightarrow> length g = w \<and> (\<forall>c \<in> set g. length c = h)"

definition marks :: "nat \<Rightarrow> nat \<Rightarrow> (nat \<Rightarrow> nat \<Rightarrow> bool) \<Rightarrow> bool list list \<Rightarrow> bool list list \<Rightarrow> bool" where
  "marks w h f g g' \<longleftrightarrow>
     rect_grid w h g' \<and> (\<forall>x < w. \<forall>y < h. g' ! x ! y = (g ! x ! y \<or> f x y))"

section \<open>The game (class Game)\<close>

text \<open>
  The state of a game: the fields of \<open>Game\<close> that the simulation uses, the two screen
  globals, whether a movement sound was loaded, and the bullet store. Tanks are referred
  to by their index in \<open>tanks\<close>, bullets by their address in \<open>bullet_store\<close>, so that
  a bullet stays the same object when the list that held it is cleared. \<open>match_start\<close> and
  \<open>match_end\<close> are None until \<open>start_game\<close> sets them.
\<close>

datatype phase = menu | playing | game_over

datatype mode = pvp | pvc

record Game =
  running :: bool
  state :: phase
  mode :: "mode option"
  game_tiles :: "Tile list"
  tanks :: "Tank list"
  bullet_store :: "nat \<Rightarrow> Bullet"
  grid_map :: "bool list list option"
  match_start :: "int option"
  match_end :: "int option"
  screen_width :: int
  screen_height :: int
  menu_button_rects :: "Rect option \<times> Rect option"
  sfx_move :: bool

subsection \<open>Collisions of bullets and tanks (Tank.respawn, Game.check_collisions)\<close>

definition respawn :: "Tank \<Rightarrow> Tank" where
  "respawn t =
     t\<lparr>alive := True, bullets := [],
       tank_x := fst (spawn_point t), tank_y := snd (spawn_point t),
       move_sound_cooldown := 0\<rparr>"

text \<open>
  \<open>hit\<close> is the body of the test of line 772 for the tank at index i and the bullet at
  address a; \<open>bullet_visit\<close> is one round of the innermost loop, \<open>bullets_loop\<close> that loop
  over a copy of the bullet list of the other tank, \<open>others_loop\<close> and \<open>tanks_loop\<close> the
  inner and the outer loop over the tanks.
\<close>

definition hit :: "nat \<Rightarrow> nat \<Rightarrow> Game \<Rightarrow> Game" where
  "hit i a g =
     (let g1 = g\<lparr>bullet_store := (bullet_store g)(a := (bullet_store g a)\<lparr>active := False\<rparr>)\<rparr>;
          owner = bullet_owner (bullet_store g1 a);
          g2 = (if owner = i then
                  g1\<lparr>tanks := (tanks g1)[i := (tanks g1 ! i)\<lparr>suicides := suicides (tanks g1 ! i) + 1,
                                                           deaths := deaths (tanks g1 ! i) + 1\<rparr>]\<rparr>
                else
                  (let g1' = g1\<lparr>tanks := (tanks g1)[owner := (tanks g1 ! owner)\<lparr>kills := kills (tanks g1 ! owner) + 1\<rparr>]\<rparr>
                   in g1'\<lparr>tanks := (tanks g1')[i := (tanks g1' ! i)\<lparr>deaths := deaths (tanks g1' ! i) + 1\<rparr>]\<rparr>))
      in g2\<lparr>tanks := (tanks g2)[i := respawn (tanks g2 ! i)]\<rparr>)"

definition bullet_visit :: "nat \<Rightarrow> nat \<Rightarrow> Game \<Rightarrow> Game" where
  "bullet_visit i a g =
     (if active (bullet_store g a) \<and> colliderect (get_rect (tanks g ! i)) (bullet_rect (bullet_store g a))
      then hit i a g else g)"

fun bullets_loop :: "nat \<Rightarrow> nat list \<Rightarrow> Game \<Rightarrow> Game" where
  "bullets_loop i [] g = g"
| "bullets_loop i (a # as) g = bullets_loop i as (bullet_visit i a g)"

fun others_loop :: "nat \<Rightarrow> nat list \<Rightarrow> Game \<Rightarrow> Game" where
  "others_loop i [] g = g"
| "others_loop i (j # js) g =
     others_loop i js (if \<not> alive (tanks g ! j) then g else bullets_loop i (bullets (tanks g ! j)) g)"

fun tanks_loop :: "nat list \<Rightarrow> Game \<Rightarrow> Game" where
  "tanks_loop [] g = g"
| "tanks_loop (i # is) g =
     tanks_loop is (if \<not> alive (tanks g ! i) then g else others_loop i [0..<length (tanks g)] g)"

definition check_collisions :: "Game \<Rightarrow> Game" where
  "check_collisions g = tanks_loop [0..<length (tanks g)] g"

text \<open>
  The visits of the innermost loop that \<open>check_collisions\<close> makes, in order: each is the
  index of the tank tested, the address of the bullet, and the game before and after the
  visit. \<open>linked s vs t\<close> says that the visits vs lead from s to t, each starting where
  the one before ended. \<open>struck i a sp d h\<close> is the trace that a hit of bullet a on tank i
  leaves in a game h: the bullet inactive, the tank at the spawn point sp with an empty
  bullet list and at least d deaths. \<open>all_alive\<close> says that every tank of a game is alive.
\<close>

type_synonym step = "nat \<times> nat \<times> Game \<times> Game"

fun bullets_steps :: "nat \<Rightarrow> nat list \<Rightarrow> Game \<Rightarrow> step list" where
  "bullets_steps i [] g = []"
| "bullets_steps i (a # as) g = (i, a, g, bullet_visit i a g) # bullets_steps i as (bullet_visit i a g)"

fun others_steps :: "nat \<Rightarrow> nat list \<Rightarrow> Game \<Rightarrow> step list" where
  "others_steps i [] g = []"
| "others_steps i (j # js) g =
     (if \<not> alive (tanks g ! j) then others_steps i js g
      else bullets_steps i (bullets (tanks g ! j)) g
           @ others_steps i js (bullets_loop i (bullets (tanks g ! j)) g))"

fun tanks_steps :: "nat list \<Rightarrow> Game \<Rightarrow> step list" where
  "tanks_steps [] g = []"
| "tanks_steps (i # is) g =
     (if \<not> alive (tanks g ! i) then tanks_steps is g
      else others_steps i [0..<length (tanks g)] g
           @ tanks_steps is (others_loop i [0..<length (tanks g)] g))"

definition check_steps :: "Game \<Rightarrow> step list" where
  "check_steps g = tanks_steps [0..<length (tanks g)] g"

fun linked :: "Game \<Rightarrow> step list \<Rightarrow> Game \<Rightarrow> bool" where
  "linked s [] t \<longleftrightarrow> s = t"
| "linked s ((i, a, b, c) # rest) t \<longleftrightarrow> b = s \<and> c = bullet_visit i a b \<and> linked c rest t"

definition struck :: "nat \<Rightarrow> nat \<Rightarrow> real \<times> real \<Rightarrow> int \<Rightarrow> Game \<Rightarrow> bool" where
  "struck i a sp d h \<longleftrightarrow>
     \<not> active (bullet_store h a) \<and> i < length (tanks h) \<and> spawn_point (tanks h ! i) = sp \<and>
     tank_x (tanks h ! i) = fst sp \<and> tank_y (tanks h ! i) = snd sp \<and> bullets (tanks h ! i) = [] \<and>
     d \<le> deaths (tanks h ! i)"

definition all_alive :: "Game \<Rightarrow> bool" where
  "all_alive g \<longleftrightarrow> (\<forall>j < length (tanks g). alive (tanks g ! j))"

subsection \<open>The main loop (Game.start_game, Game.run)\<close>

text \<open>
  One round of the loop of \<open>Game.run\<close>. What comes from outside is an argument: the
  events of the frame, each with the map that \<open>MapGenerator.generate_map\<close> would return
  and the value that \<open>pygame.time.get_ticks\<close> would give if the event starts a game; the
  reading \<open>now\<close> of the clock at line 1149; the button rectangles that drawing the menu
  stores; and \<open>play\<close>, the updates of the tanks and the shooting (lines 1127-1142), which
  read the game and give new tanks and bullets or raise. Drawing does not change the
  state otherwise.
\<close>

datatype key = K_1 | K_2 | K_r | K_ESCAPE | K_other

datatype event = QUIT | KEYDOWN key | MOUSEBUTTONDOWN int int int | VIDEORESIZE int int | OTHER_EVENT

definition collidepoint :: "Rect \<Rightarrow> int \<Rightarrow> int \<Rightarrow> bool" where
  "collidepoint r px py \<longleftrightarrow>
     rect_x r \<le> px \<and> px < rect_x r + rect_w r \<and> rect_y r \<le> py \<and> py < rect_y r + rect_h r"

definition rect_truthy :: "Rect option \<Rightarrow> bool" where
  "rect_truthy r = (case r of None \<Rightarrow> False | Some q \<Rightarrow> rect_w q \<noteq> 0 \<and> rect_h q \<noteq> 0)"

definition start_game :: "Tile list \<Rightarrow> int \<Rightarrow> mode option \<Rightarrow> Game \<Rightarrow> py_error + Game" where
  "start_game new_tiles ticks m g =
     (let g1 = g\<lparr>mode := m, state := playing, game_tiles := new_tiles\<rparr> in
      and_then (create_grid_map (screen_width g1) (screen_height g1) (game_tiles g1)) (\<lambda>grid.
        (let g2 = g1\<lparr>grid_map := Some grid\<rparr>;
             grid_w = max 1 (screen_width g2 div TILE_WIDTH);
             grid_h = max 1 (screen_height g2 div TILE_HEIGHT);
             spawn1 = (2 * TILE_WIDTH + TILE_WIDTH div 2, 2 * TILE_HEIGHT + TILE_HEIGHT div 2);
             spawn2 = ((grid_w - 3) * TILE_WIDTH + TILE_WIDTH div 2,
                       (grid_h - 3) * TILE_HEIGHT + TILE_HEIGHT div 2);
             t1 = Tank_init (of_int (fst spawn1)) (of_int (snd spawn1)) False (sfx_move g2)
                    (Some (of_int (fst spawn1), of_int (snd spawn1)));
             t2 = Tank_init (of_int (fst spawn2)) (of_int (snd spawn2)) False (sfx_move g2)
                    (Some (of_int (fst spawn2), of_int (snd spawn2)));
             g3 = (if m = Some pvp then g2\<lparr>tanks := [t1, t2]\<rparr>
                   else g2\<lparr>tanks := [t1, t2\<lparr>is_ai := True\<rparr>]\<rparr>)
         in Inr (g3\<lparr>match_start := Some ticks,
                     match_end := Some (ticks + MATCH_SECONDS * 1000)\<rparr>))))"

definition on_keydown :: "Tile list \<times> int \<Rightarrow> key \<Rightarrow> Game \<Rightarrow> py_error + Game" where
  \<comment> \<open>lines 1087-1100\<close>
  "on_keydown env k g =
     (if state g = menu then
        (if k = K_1 then start_game (fst env) (snd env) (Some pvp) g
         else if k = K_2 then start_game (fst env) (snd env) (Some pvc) g
         else Inr g)
      else if state g = game_over then
        (if k = K_r then start_game (fst env) (snd env) (mode g) g
         else if k = K_ESCAPE then Inr (g\<lparr>state := menu\<rparr>)
         else Inr g)
      else if state g = playing then
        (if k = K_ESCAPE then Inr (g\<lparr>state := menu\<rparr>) else Inr g)
      else Inr g)"

definition on_mouse :: "Tile list \<times> int \<Rightarrow> int \<Rightarrow> int \<Rightarrow> int \<Rightarrow> Game \<Rightarrow> py_error + Game" where
  \<comment> \<open>lines 1103-1110\<close>
  "on_mouse env button px py g =
     (if state g = menu then
        (if button = 1 then
           (if rect_truthy (fst (menu_button_rects g)) \<and>
               collidepoint (the (fst (menu_button_rects g))) px py
            then start_game (fst env) (snd env) (Some pvp) g
            else if rect_truthy (snd (menu_button_rects g)) \<and>
               collidepoint (the (snd (menu_button_rects g))) px py
            then start_game (fst env) (snd env) (Some pvc) g
            else Inr g)
         else Inr g)
      else Inr g)"

definition on_resize :: "int \<Rightarrow> int \<Rightarrow> Game \<Rightarrow> Game" where
  \<comment> \<open>lines 1112-1124; an error of the rebuild is caught and ignored\<close>
  "on_resize w h g =
     (let g1 = g\<lparr>screen_width := max 100 w, screen_height := max 100 h\<rparr> in
      if state g1 = playing then
        (case create_grid_map (screen_width g1) (screen_height g1) (game_tiles g1) of
           Inl e \<Rightarrow> g1
         | Inr grid \<Rightarrow> g1\<lparr>grid_map := Some grid\<rparr>)
      else g1)"

definition handle_event :: "Tile list \<times> int \<Rightarrow> event \<Rightarrow> Game \<Rightarrow> py_error + Game" where
  "handle_event env ev g =
     (let g1 = (if ev = QUIT then g\<lparr>running := False\<rparr> else g) in
      and_then (case ev of KEYDOWN k \<Rightarrow> on_keydown env k g1 | _ \<Rightarrow> Inr g1) (\<lambda>g2.
      and_then (case ev of MOUSEBUTTONDOWN button px py \<Rightarrow> on_mouse env button px py g2
                | _ \<Rightarrow> Inr g2) (\<lambda>g3.
      (case ev of VIDEORESIZE w h \<Rightarrow> Inr (on_resize w h g3) | _ \<Rightarrow> Inr g3))))"

fun handle_events :: "((Tile list \<times> int) \<times> event) list \<Rightarrow> Game \<Rightarrow> py_error + Game" where
  "handle_events [] g = Inr g"
| "handle_events ((env, ev) # evs) g = and_then (handle_event env ev g) (handle_events evs)"

definition draw_menu :: "Rect option \<times> Rect option \<Rightarrow> Game \<Rightarrow> Game" where
  "draw_menu buttons g =
     g\<lparr>menu_button_rects :=
         (case fst buttons of None \<Rightarrow> fst (menu_button_rects g) | Some r \<Rightarrow> Some r,
          case snd buttons of None \<Rightarrow> snd (menu_button_rects g) | Some r \<Rightarrow> Some r)\<rparr>"

definition frame :: "(Game \<Rightarrow> py_error + Tank list \<times> (nat \<Rightarrow> Bullet)) \<Rightarrow> int \<Rightarrow>
    Rect option \<times> Rect option \<Rightarrow> Game \<Rightarrow> py_error + Game" where
  "frame play now buttons g =
     (if state g = playing then
        and_then (play g) (\<lambda>(ts, bs).
          (let g1 = check_collisions (g\<lparr>tanks := ts, bullet_store := bs\<rparr>) in
           if now \<ge> (case match_end g1 of None \<Rightarrow> 0 | Some e \<Rightarrow> e)
           then Inr (g1\<lparr>state := game_over\<rparr>) else Inr g1))
      else if state g = menu then Inr (draw_menu buttons g)
      else Inr g)"

definition run_iteration :: "((Tile list \<times> int) \<times> event) list \<Rightarrow>
    (Game \<Rightarrow> py_error + Tank list \<times> (nat \<Rightarrow> Bullet)) \<Rightarrow> int \<Rightarrow>
    Rect option \<times> Rect option \<Rightarrow> Game \<Rightarrow> py_error + Game" where
  "run_iteration evs play now buttons g =
     and_then (handle_events evs g) (frame play now buttons)"

text \<open>
  While a match is played, its end is set MATCH_SECONDS after its start. \<open>quiet\<close> events
  are those that leave the game-over screen in place.
\<close>

definition timer_ok :: "Game \<Rightarrow> bool" where
  "timer_ok g \<longleftrightarrow>
     state g \<noteq> playing \<or>
     (case match_start g of None \<Rightarrow> False
      | Some s \<Rightarrow> match_end g = Some (s + MATCH_SECONDS * 1000))"

definition quiet :: "event \<Rightarrow> bool" where
  "quiet ev \<longleftrightarrow> ev \<noteq> KEYDOWN K_r \<and> ev \<noteq> KEYDOWN K_ESCAPE"

text \<open>
  A round of the loop with what it reads from outside, and a run of the loop over a list
  of rounds: the test of \<open>while self.running\<close> comes before each round, and an error ends
  the run. \<open>undisturbed\<close> events are those that neither quit nor leave a match nor start
  one from the game-over screen; a round is \<open>calm\<close> when all its events are undisturbed,
  and \<open>settled\<close> when all its events are quiet.
\<close>

record round =
  r_events :: "((Tile list \<times> int) \<times> event) list"
  r_play :: "Game \<Rightarrow> py_error + Tank list \<times> (nat \<Rightarrow> Bullet)"
  r_now :: int
  r_buttons :: "Rect option \<times> Rect option"

definition run_round :: "round \<Rightarrow> Game \<Rightarrow> py_error + Game" where
  "run_round r g = run_iteration (r_events r) (r_play r) (r_now r) (r_buttons r) g"

fun run_rounds :: "round list \<Rightarrow> Game \<Rightarrow> py_error + Game" where
  "run_rounds [] g = Inr g"
| "run_rounds (r # rs) g =
     (if running g then and_then (run_round r g) (run_rounds rs) else Inr g)"

definition undisturbed :: "event \<Rightarrow> bool" where
  "undisturbed ev \<longleftrightarrow> ev \<noteq> QUIT \<and> ev \<noteq> KEYDOWN K_ESCAPE \<and> ev \<noteq> KEYDOWN K_r"

definition calm :: "round \<Rightarrow> bool" where
  "calm r = list_all (\<lambda>p. undisturbed (snd p)) (r_events r)"

definition settled :: "round \<Rightarrow> bool" where
  "settled r = list_all (\<lambda>p. quiet (snd p)) (r_events r)"

text \<open>
  Games for concrete runs: a bullet of the second tank on the first tank, a tank on its
  own bullet, and two tanks 40 units apart that face each other and have both just fired;
  a frame in which no tank and no bullet moves, and a round with that frame and one event
  of no effect.
\<close>

definition demo_game :: Game where
  "demo_game =
     \<lparr>running = True, state = playing, mode = Some pvp, game_tiles = [],
      tanks = [(Tank_init 175 112 False False None)\<lparr>tank_x := 300, tank_y := 200\<rparr>,
               (Tank_init 1715 877 False False None)\<lparr>bullets := [0]\<rparr>],
      bullet_store = (\<lambda>a. Bullet_init 310 200 180 1),
      grid_map = None, match_start = Some 0, match_end = Some 90000,
      screen_width = 1920, screen_height = 1020, menu_button_rects = (None, None),
      sfx_move = False\<rparr>"

definition selfhit_game :: Game where
  "selfhit_game =
     \<lparr>running = True, state = playing, mode = Some pvp, game_tiles = [],
      tanks = [(Tank_init 175 112 False False None)\<lparr>tank_x := 300, tank_y := 200, bullets := [0, 1]\<rparr>,
               Tank_init 1715 877 False False None],
      bullet_store = (\<lambda>a. Bullet_init 310 200 180 0),
      grid_map = None, match_start = Some 0, match_end = Some 90000,
      screen_width = 1920, screen_height = 1020, menu_button_rects = (None, None),
      sfx_move = False\<rparr>"

definition idle_play :: "Game \<Rightarrow> py_error + Tank list \<times> (nat \<Rightarrow> Bullet)" where
  "idle_play g = Inr (tanks g, bullet_store g)"

definition idle_round :: "int \<Rightarrow> round" where
  "idle_round t = \<lparr>r_events = [(([], 0), OTHER_EVENT)], r_play = idle_play, r_now = t,
                    r_buttons = (None, None)\<rparr>"

definition crossfire_game :: Game where
  "crossfire_game =
     \<lparr>running = True, state = playing, mode = Some pvp, game_tiles = [],
      tanks = [(Tank_init 175 112 False False None)\<lparr>tank_x := 300, tank_y := 200, bullets := [0]\<rparr>,
               (Tank_init 1715 877 False False None)\<lparr>tank_x := 340, tank_y := 200, tank_angle := 180,
                  bullets := [1]\<rparr>],
      bullet_store = (\<lambda>a. if a = 0 then Bullet_init 330 200 0 0 else Bullet_init 310 200 180 1),
      grid_map = None, match_start = Some 0, match_end = Some 90000,
      screen_width = 1920, screen_height = 1020, menu_button_rects = (None, None),
      sfx_move = False\<rparr>"

section \<open>The pathfinder (Tank.astar_pathfind)\<close>

text \<open>
  Cells are pairs of integers, costs and priorities are real numbers. The heap of
  \<open>heapq\<close> is a list of items \<open>(priority, cell)\<close>: \<open>heappush\<close> adds an item and
  \<open>heappop\<close> removes and returns a smallest one in the order of Python's tuples
  (priority first, then the cell's coordinates); items that compare equal are equal, so
  which of them is returned makes no difference. The dictionaries \<open>came_from\<close> and
  \<open>cost_so_far\<close> are lists of key-value pairs, read with \<open>map_of\<close> and written with
  \<open>AList.update\<close>; a missing key raises KeyError, an index outside a list IndexError,
  and subscripting None (the predecessor of the start cell) TypeError.
\<close>

type_synonym cell = "int \<times> int"

type_synonym item = "real \<times> cell"

definition item_less :: "item \<Rightarrow> item \<Rightarrow> bool" where
  "item_less a b \<longleftrightarrow>
     fst a < fst b \<or>
     (fst a = fst b \<and>
      (fst (snd a) < fst (snd b) \<or> (fst (snd a) = fst (snd b) \<and> snd (snd a) < snd (snd b))))"

fun least :: "item \<Rightarrow> item list \<Rightarrow> item" where
  "least m [] = m"
| "least m (a # as) = least (if item_less a m then a else m) as"

definition heappush :: "item list \<Rightarrow> item \<Rightarrow> item list" where
  "heappush heap it = it # heap"

definition heappop :: "item list \<Rightarrow> py_error + item \<times> item list" where
  "heappop heap =
     (case heap of
        [] \<Rightarrow> Inl IndexError
      | a # as \<Rightarrow> Inr (least a as, remove1 (least a as) heap))"

definition py_get :: "'a list \<Rightarrow> int \<Rightarrow> py_error + 'a" where
  "py_get xs i = (case py_index (length xs) i of None \<Rightarrow> Inl IndexError | Some k \<Rightarrow> Inr (xs ! k))"

definition dict_get :: "('k \<times> 'v) list \<Rightarrow> 'k \<Rightarrow> py_error + 'v" where
  "dict_get d k = (case map_of d k of None \<Rightarrow> Inl KeyError | Some v \<Rightarrow> Inr v)"

record astar_state =
  frontier :: "item list"
  came_from :: "(cell \<times> cell option) list"
  cost_so_far :: "(cell \<times> real) list"
  broke :: bool

text \<open>
  The body of the loop over the eight neighbours (lines 438-453), for one direction d.
\<close>

definition directions :: "(int \<times> int) list" where
  "directions = [(0, 1), (1, 0), (0, -1), (-1, 0), (1, 1), (-1, -1), (1, -1), (-1, 1)]"

definition in_grid :: "bool list list \<Rightarrow> cell \<Rightarrow> py_error + bool" where
  "in_grid grid next_pos =
     (if 0 \<le> fst next_pos \<and> fst next_pos < int (length grid) then
        and_then (py_get grid 0) (\<lambda>col0.
          Inr (0 \<le> snd next_pos \<and> snd next_pos < int (length col0)))
      else Inr False)"

definition relax :: "bool list list \<Rightarrow> cell \<Rightarrow> cell \<Rightarrow> int \<times> int \<Rightarrow> astar_state \<Rightarrow> py_error + astar_state" where
  "relax grid goal current d s =
     (let dx = fst d; dy = snd d;
          next_pos = (fst current + dx, snd current + dy) in
      and_then (in_grid grid next_pos) (\<lambda>inside.
        if \<not> inside then Inr s
        else
          and_then (py_get grid (fst next_pos)) (\<lambda>col.
          and_then (py_get col (snd next_pos)) (\<lambda>occupied.
            if occupied then Inr s
            else
              and_then (dict_get (cost_so_far s) current) (\<lambda>c.
                (let new_cost = c + (if \<bar>dx\<bar> + \<bar>dy\<bar> = 2 then 1.4 else 1) in
                 if (case map_of (cost_so_far s) next_pos of None \<Rightarrow> True
                     | Some old \<Rightarrow> new_cost < old)
                 then
                   (let priority = new_cost + of_int \<bar>fst next_pos - fst goal\<bar>
                                     + of_int \<bar>snd next_pos - snd goal\<bar>
                    in Inr (s\<lparr>cost_so_far := AList.update next_pos new_cost (cost_so_far s),
                              frontier := heappush (frontier s) (priority, next_pos),
                              came_from := AList.update next_pos (Some current) (came_from s)\<rparr>))
                 else Inr s))))))"

text \<open>
  The search loop (lines 432-453). \<open>broke\<close> records that the loop was left by
  \<open>break\<close>. A loop that does not end gives None.
\<close>

definition search_cond :: "astar_state \<Rightarrow> bool" where
  "search_cond s \<longleftrightarrow> frontier s \<noteq> [] \<and> length (came_from s) < 200 \<and> \<not> broke s"

definition search_step :: "bool list list \<Rightarrow> cell \<Rightarrow> astar_state \<Rightarrow> py_error + astar_state" where
  "search_step grid goal s =
     and_then (heappop (frontier s)) (\<lambda>(it, rest).
       (let current = snd it; s1 = s\<lparr>frontier := rest\<rparr> in
        if current = goal then Inr (s1\<lparr>broke := True\<rparr>)
        else for_each directions (relax grid goal current) s1))"

definition running_search :: "py_error + astar_state \<Rightarrow> bool" where
  "running_search r = (case r of Inl e \<Rightarrow> False | Inr s \<Rightarrow> search_cond s)"

definition search :: "bool list list \<Rightarrow> cell \<Rightarrow> cell \<Rightarrow> (py_error + astar_state) option" where
  "search grid start goal =
     while_option running_search
       (\<lambda>r. and_then r (search_step grid goal))
       (Inr \<lparr>frontier = [(0, start)], came_from = [(start, None)],
             cost_so_far = [(start, 0)], broke = False\<rparr>)"

text \<open>
  The walk along the predecessors from the goal back to the start (lines 459-464),
  and the whole method.
\<close>

definition walking :: "cell \<Rightarrow> py_error + cell option \<times> (int \<times> int) list \<Rightarrow> bool" where
  "walking start r = (case r of Inl e \<Rightarrow> False | Inr (current, path) \<Rightarrow> current \<noteq> Some start)"

definition walk_step :: "(cell \<times> cell option) list \<Rightarrow> cell option \<times> (int \<times> int) list \<Rightarrow>
    py_error + cell option \<times> (int \<times> int) list" where
  "walk_step cf w =
     (case fst w of
        None \<Rightarrow> Inl TypeError
      | Some current \<Rightarrow>
          and_then (dict_get cf current) (\<lambda>previous.
            Inr (previous,
                 snd w @ [(fst current * TILE_WIDTH + TILE_WIDTH div 2,
                           snd current * TILE_HEIGHT + TILE_HEIGHT div 2)])))"

definition reconstruct :: "(cell \<times> cell option) list \<Rightarrow> cell \<Rightarrow> cell \<Rightarrow>
    (py_error + cell option \<times> (int \<times> int) list) option" where
  "reconstruct cf start goal =
     while_option (walking start) (\<lambda>r. and_then r (walk_step cf)) (Inr (Some goal, []))"

definition cell_of :: "Tank \<Rightarrow> cell" where
  "cell_of t = (\<lfloor>tank_x t / of_int TILE_WIDTH\<rfloor>, \<lfloor>tank_y t / of_int TILE_HEIGHT\<rfloor>)"

definition astar_pathfind :: "Tank \<Rightarrow> Tank \<Rightarrow> bool list list \<Rightarrow> (py_error + (int \<times> int) list) option" where
  "astar_pathfind self target grid =
     (let start = cell_of self; goal = cell_of target in
      if start = goal then Some (Inr [])
      else
        (case search grid start goal of
           None \<Rightarrow> None
         | Some (Inl e) \<Rightarrow> Some (Inl e)
         | Some (Inr s) \<Rightarrow>
             if map_of (came_from s) goal = None then Some (Inr [])
             else
               (case reconstruct (came_from s) start goal of
                  None \<Rightarrow> None
                | Some (Inl e) \<Rightarrow> Some (Inl e)
                | Some (Inr (current, path)) \<Rightarrow> Some (Inr (take 10 (rev path))))))"

text \<open>A grid of five columns and five rows with a closed border and one obstacle.\<close>

definition open5 :: "bool list list" where
  "open5 = [[True, True, True, True, True], [True, False, False, False, True],
            [True, False, False, False, True], [True, False, True, False, True],
            [True, True, True, True, True]]"

text \<open>
  For the proofs: the cells the search may enter, the invariant of the search loop,
  and the quantities that decrease with each round of the search and of the walk.
\<close>

definition free :: "bool list list \<Rightarrow> cell \<Rightarrow> bool" where
  "free grid c \<longleftrightarrow>
     0 \<le> fst c \<and> fst c < int (length grid) \<and> 0 \<le> snd c \<and> snd c < int (length (grid ! 0)) \<and>
     \<not> grid ! nat (fst c) ! nat (snd c)"

definition astar_inv :: "bool list list \<Rightarrow> cell \<Rightarrow> astar_state \<Rightarrow> bool" where
  "astar_inv grid start s \<longleftrightarrow>
     dom (map_of (came_from s)) = dom (map_of (cost_so_far s)) \<and>
     map_of (came_from s) start = Some None \<and>
     map_of (cost_so_far s) start = Some 0 \<and>
     (\<forall>it \<in> set (frontier s). snd it \<in> dom (map_of (cost_so_far s))) \<and>
     (\<forall>c. c \<noteq> start \<longrightarrow> map_of (came_from s) c \<noteq> Some None) \<and>
     (\<forall>c p. map_of (came_from s) c = Some (Some p) \<longrightarrow>
        (\<exists>cp cc. map_of (cost_so_far s) p = Some cp \<and> map_of (cost_so_far s) c = Some cc \<and> cp < cc)) \<and>
     (\<forall>c v. map_of (cost_so_far s) c = Some v \<longrightarrow> (\<exists>k::nat. v = real k / 5)) \<and>
     (\<forall>c \<in> dom (map_of (cost_so_far s)). c \<noteq> start \<longrightarrow> free grid c)"

definition universe :: "bool list list \<Rightarrow> cell \<Rightarrow> cell set" where
  "universe grid start = insert start {c. free grid c}"

definition weight :: "astar_state \<Rightarrow> cell \<Rightarrow> nat" where
  "weight s c = nat \<lfloor>5 * the (map_of (cost_so_far s) c)\<rfloor>"

definition m12 :: "bool list list \<Rightarrow> cell \<Rightarrow> astar_state \<Rightarrow> nat \<times> nat" where
  "m12 grid start s =
     (card (universe grid start - dom (map_of (cost_so_far s))),
      sum (weight s) (dom (map_of (cost_so_far s))))"

definition progress :: "bool list list \<Rightarrow> cell \<Rightarrow> astar_state \<Rightarrow> astar_state \<Rightarrow> bool" where
  "progress grid start s s' \<longleftrightarrow>
     s' = s \<or> (m12 grid start s', m12 grid start s) \<in> less_than <*lex*> less_than"

definition m3 :: "bool list list \<Rightarrow> cell \<Rightarrow> py_error + astar_state \<Rightarrow> nat \<times> nat \<times> nat" where
  "m3 grid start r =
     (case r of
        Inl e \<Rightarrow> (0, 0, 0)
      | Inr s \<Rightarrow> (fst (m12 grid start s), snd (m12 grid start s), length (frontier s)))"

definition search_ok :: "bool list list \<Rightarrow> cell \<Rightarrow> py_error + astar_state \<Rightarrow> bool" where
  "search_ok grid start r = (case r of Inl e \<Rightarrow> False | Inr s \<Rightarrow> astar_inv grid start s)"

definition walk_ok :: "astar_state \<Rightarrow> py_error + cell option \<times> (int \<times> int) list \<Rightarrow> bool" where
  "walk_ok s r =
     (case r of
        Inl e \<Rightarrow> False
      | Inr w \<Rightarrow> (case fst w of None \<Rightarrow> False | Some c \<Rightarrow> c \<in> dom (map_of (cost_so_far s))))"

definition walk_measure :: "astar_state \<Rightarrow> py_error + cell option \<times> (int \<times> int) list \<Rightarrow> nat" where
  "walk_measure s r =
     (case r of
        Inl e \<Rightarrow> 0
      | Inr w \<Rightarrow> (case fst w of None \<Rightarrow> 0 | Some c \<Rightarrow> weight s c))"

section \<open>Inactive bullets\<close>

text \<open>
  C10. The per-tick update of a bullet whose active flag is False returns the bullet as
  it is: position, angle, bounce count, active flag and every other field are unchanged.
\<close>

theorem inactive_update_noop:
  "\<not> active b \<Longrightarrow> Bullet_update sw sh tiles b = b"
  by (simp add: Bullet_update_def)

theorem inactive_update_noop_witness:
  "\<not> active ((Bullet_init 100 200 90 0)\<lparr>bounces := 5, active := False\<rparr>) \<and>
   Bullet_update 1920 1020 [] ((Bullet_init 100 200 90 0)\<lparr>bounces := 5, active := False\<rparr>)
     = (Bullet_init 100 200 90 0)\<lparr>bounces := 5, active := False\<rparr>"
  using inactive_update_noop [of "(Bullet_init 100 200 90 0)\<lparr>bounces := 5, active := False\<rparr>" 1920 1020 "[]"]
  by simp

section \<open>Bounce count\<close>

lemma tile_loop_cases:
  "tile_loop br tiles b = (r, b') \<Longrightarrow>
     (b' = b \<and> \<not> r) \<or>
     (bounces b' = bounces b + 1 \<and> max_bounces b' = max_bounces b \<and>
      (r \<longrightarrow> \<not> active b' \<and> bounces b' > max_bounces b) \<and>
      (\<not> r \<longrightarrow> active b' = active b \<and> bounces b' \<le> max_bounces b))"
  by (induction br tiles b rule: tile_loop.induct) (auto simp: Let_def split: if_splits)

lemma off_screen_fields:
  "bounces (off_screen sw sh b) = bounces b" "max_bounces (off_screen sw sh b) = max_bounces b"
  "active (off_screen sw sh b) \<Longrightarrow> active b"
  by (auto simp: off_screen_def split: if_splits)

lemma advance_fields:
  "bounces (advance b) = bounces b" "max_bounces (advance b) = max_bounces b"
  "active (advance b) = active b" "bullet_angle (advance b) = bullet_angle b"
  "bullet_size (advance b) = bullet_size b"
  by (auto simp: advance_def)

lemma update_cases:
  "Bullet_update sw sh tiles b = b' \<Longrightarrow>
     max_bounces b' = max_bounces b \<and>
     (bounces b' = bounces b \<or> bounces b' = bounces b + 1 \<and> active b) \<and>
     (active b' \<longrightarrow> active b \<and> (bounces b' = bounces b \<or> bounces b' \<le> max_bounces b))"
  unfolding Bullet_update_def
  by (auto simp: Let_def advance_fields off_screen_fields
      split: if_splits prod.splits bool.splits dest!: tile_loop_cases)

lemma step_mono: "bounces b \<le> bounces (bullet_step e b)"
proof (cases e)
  case (Tick sw sh tiles)
  then show ?thesis using update_cases[OF refl, of sw sh tiles b] by auto
qed simp

lemma run_mono: "bounces b \<le> bounces (bullet_run es b)"
proof (induction es arbitrary: b)
  case Nil show ?case by simp
next
  case (Cons e es)
  have "bounces b \<le> bounces (bullet_step e b)" by (rule step_mono)
  also have "\<dots> \<le> bounces (bullet_run es (bullet_step e b))" by (rule Cons.IH)
  finally show ?case by simp
qed

lemma step_inv: "bullet_inv b \<Longrightarrow> bullet_inv (bullet_step e b)"
  using update_cases[OF refl, of _ _ _ b] by (cases e) (fastforce simp: bullet_inv_def)+

lemma run_inv: "bullet_inv b \<Longrightarrow> bullet_inv (bullet_run es b)"
  by (induction es arbitrary: b) (auto intro: step_inv)

lemma step_inactive: "\<not> active b \<Longrightarrow> \<not> active (bullet_step e b)"
  by (cases e) (auto simp: Bullet_update_def)

lemma run_inactive: "\<not> active b \<Longrightarrow> \<not> active (bullet_run es b)"
proof (induction es arbitrary: b)
  case Nil then show ?case by simp
next
  case (Cons e es)
  from Cons.prems have "\<not> active (bullet_step e b)" by (rule step_inactive)
  then have "\<not> active (bullet_run es (bullet_step e b))" by (rule Cons.IH)
  then show ?case by simp
qed

lemma init_inv: "bullet_inv (Bullet_init x y a ow)"
  by (simp add: bullet_inv_def Bullet_init_def)

lemmas bullet_eval =
  Bullet_update_def Bullet_init_def advance_def cos_deg_def sin_deg_def x_breach_def
  y_breach_def Let_def BULLET_SPEED_def BULLET_SIZE_def BORDER_THICKNESS_def

text \<open>
  C2, as stated, fails. A bullet made by \<open>Bullet.__init__\<close> left of the screen and heading
  left is over the left edge on each of its first five updates; the fifth raises its
  bounce count to 5, above the maximum of 4 (the update compares after it has counted:
  \<open>self.bounces += 1; if self.bounces > self.max_bounces\<close>).
\<close>

theorem bounces_exceed_maximum:
  "bounces (bullet_run [Tick 1920 1020 [], Tick 1920 1020 [], Tick 1920 1020 [],
                        Tick 1920 1020 [], Tick 1920 1020 []] (Bullet_init (-50) 500 180 0)) = 5 \<and>
   max_bounces (bullet_run [Tick 1920 1020 [], Tick 1920 1020 [], Tick 1920 1020 [],
                        Tick 1920 1020 [], Tick 1920 1020 []] (Bullet_init (-50) 500 180 0)) = 4"
  by (simp add: bullet_eval)

text \<open>
  C2, amended. For every bullet made by \<open>Bullet.__init__\<close> and every sequence of events
  (updates and hits): the bounce count never decreases afterwards, it never exceeds the
  maximum plus one (5), it is at most the maximum (4) while the bullet is active, and once
  it exceeds the maximum the bullet is inactive after every further sequence of events.
\<close>

theorem bounce_count_amended:
  "bounces (bullet_run es (Bullet_init x y a ow))
     \<le> bounces (bullet_run es' (bullet_run es (Bullet_init x y a ow))) \<and>
   bounces (bullet_run es (Bullet_init x y a ow)) \<le> 5 \<and>
   (active (bullet_run es (Bullet_init x y a ow)) \<longrightarrow>
      bounces (bullet_run es (Bullet_init x y a ow)) \<le> 4) \<and>
   (4 < bounces (bullet_run es (Bullet_init x y a ow)) \<longrightarrow>
      \<not> active (bullet_run es' (bullet_run es (Bullet_init x y a ow))))"
proof -
  let ?b = "bullet_run es (Bullet_init x y a ow)"
  have inv: "bullet_inv ?b" by (rule run_inv[OF init_inv])
  have "\<not> active (bullet_run es' ?b)" if "4 < bounces ?b"
  proof -
    from inv that have "\<not> active ?b" by (auto simp: bullet_inv_def)
    then show ?thesis by (rule run_inactive)
  qed
  moreover have "bounces ?b \<le> bounces (bullet_run es' ?b)" by (rule run_mono)
  moreover have "bounces ?b \<le> 5" "active ?b \<longrightarrow> bounces ?b \<le> 4"
    using inv by (auto simp: bullet_inv_def)
  ultimately show ?thesis by blast
qed

theorem bounce_count_amended_witness:
  "4 < bounces (bullet_run [Tick 1920 1020 [], Tick 1920 1020 [], Tick 1920 1020 [],
                        Tick 1920 1020 [], Tick 1920 1020 []] (Bullet_init (-50) 500 180 0)) \<and>
   \<not> active (bullet_run [Tick 1920 1020 [], Hit]
      (bullet_run [Tick 1920 1020 [], Tick 1920 1020 [], Tick 1920 1020 [],
                        Tick 1920 1020 [], Tick 1920 1020 []] (Bullet_init (-50) 500 180 0)))"
proof -
  have h: "4 < bounces (bullet_run [Tick 1920 1020 [], Tick 1920 1020 [], Tick 1920 1020 [],
                        Tick 1920 1020 [], Tick 1920 1020 []] (Bullet_init (-50) 500 180 0))"
    by (simp add: bullet_eval)
  show ?thesis
    using h bounce_count_amended [of "[Tick 1920 1020 [], Tick 1920 1020 [], Tick 1920 1020 [],
                        Tick 1920 1020 [], Tick 1920 1020 []]" "-50" 500 180 0 "[Tick 1920 1020 [], Hit]"]
    by blast
qed

section \<open>Reflection at the border\<close>

text \<open>
  C7. When an active bullet, after its move, is over a world edge and the incremented
  bounce count does not exceed the maximum, the update keeps the moved position, counts
  the bounce and reflects the heading: if the box is over the left or right edge (the
  horizontal axis is breached, alone or together with the vertical one) the angle
  becomes 180 - angle; if only the top or bottom edge is crossed it becomes -angle.
\<close>

theorem border_reflection:
  assumes "active b"
    and "x_breach sw (advance b) \<or> y_breach sh (advance b)"
    and "bounces b + 1 \<le> max_bounces b"
  shows "Bullet_update sw sh tiles b =
           (advance b)\<lparr>bounces := bounces b + 1,
                       bullet_angle := (if x_breach sw (advance b) then 180 - bullet_angle b
                                        else - bullet_angle b)\<rparr>"
  using assms
  by (auto simp: Bullet_update_def Let_def advance_fields x_breach_def)

theorem border_reflection_witness:
  "Bullet_update 1920 1020 [] (Bullet_init 5 5 180 0)
     = \<lparr>bullet_x = -5, bullet_y = 5, bullet_angle = 0, bullet_owner = 0,
        bullet_speed = 10, bullet_size = 6, bounces = 1, max_bounces = 4, active = True\<rparr> \<and>
   Bullet_update 1920 1020 [] (Bullet_init 500 5 90 0)
     = \<lparr>bullet_x = 500, bullet_y = -5, bullet_angle = -90, bullet_owner = 0,
        bullet_speed = 10, bullet_size = 6, bounces = 1, max_bounces = 4, active = True\<rparr>"
proof -
  have a: "active (Bullet_init 5 5 180 0)" "active (Bullet_init 500 5 90 0)"
    by (simp_all add: Bullet_init_def)
  have b: "x_breach 1920 (advance (Bullet_init 5 5 180 0)) \<or> y_breach 1020 (advance (Bullet_init 5 5 180 0))"
    by (simp add: bullet_eval)
  have c: "x_breach 1920 (advance (Bullet_init 500 5 90 0)) \<or> y_breach 1020 (advance (Bullet_init 500 5 90 0))"
    by (simp add: bullet_eval)
  have d: "bounces (Bullet_init 5 5 180 0) + 1 \<le> max_bounces (Bullet_init 5 5 180 0)"
    "bounces (Bullet_init 500 5 90 0) + 1 \<le> max_bounces (Bullet_init 500 5 90 0)"
    by (simp_all add: Bullet_init_def)
  show ?thesis
    using border_reflection [OF a(1) b d(1), of "[]"] border_reflection [OF a(2) c d(2), of "[]"]
    by (simp add: bullet_eval)
qed

section \<open>Tank movement\<close>

lemma hits_tile_iff:
  "hits_tile r tiles \<longleftrightarrow> (\<exists>tile \<in> set tiles. collides tile \<and> colliderect r (Tile_rect tile))"
  by (induction tiles) auto

text \<open>
  C5. A move request (dx, dy) either leaves the tank exactly as it was, or sets the
  position to the candidate (x + dx, y + dy); in the second case the footprint stays
  clear of the border margin of 70 units on all four edges and its rectangle overlaps the
  rectangle of no tile that collides.
\<close>

theorem move_atomic:
  "Tank_move sw sh dx dy tiles t = t \<or>
   (tank_x (Tank_move sw sh dx dy tiles t) = tank_x t + dx \<and>
    tank_y (Tank_move sw sh dx dy tiles t) = tank_y t + dy \<and>
    70 \<le> tank_x (Tank_move sw sh dx dy tiles t) - of_int (tank_size t) / 2 \<and>
    tank_x (Tank_move sw sh dx dy tiles t) + of_int (tank_size t) / 2 \<le> of_int (sw - 70) \<and>
    70 \<le> tank_y (Tank_move sw sh dx dy tiles t) - of_int (tank_size t) / 2 \<and>
    tank_y (Tank_move sw sh dx dy tiles t) + of_int (tank_size t) / 2 \<le> of_int (sh - 70) \<and>
    (\<forall>tile \<in> set tiles. collides tile \<longrightarrow>
       \<not> colliderect (get_rect (Tank_move sw sh dx dy tiles t)) (Tile_rect tile)))"
  by (auto simp: Tank_move_def Let_def hits_tile_iff get_rect_def BORDER_THICKNESS_def TILE_WIDTH_def TILE_HEIGHT_def)

theorem move_atomic_witness:
  "Tank_move 1920 1020 5 0 [\<lparr>grid_x = 5, grid_y = 5, collidable = True\<rparr>] (Tank_init 175 112 False False None)
     \<noteq> Tank_init 175 112 False False None \<and>
   tank_x (Tank_move 1920 1020 5 0 [\<lparr>grid_x = 5, grid_y = 5, collidable = True\<rparr>] (Tank_init 175 112 False False None)) = 180 \<and>
   \<not> colliderect (get_rect (Tank_move 1920 1020 5 0 [\<lparr>grid_x = 5, grid_y = 5, collidable = True\<rparr>]
                                (Tank_init 175 112 False False None)))
       (Tile_rect \<lparr>grid_x = 5, grid_y = 5, collidable = True\<rparr>)"
proof -
  have ne: "Tank_move 1920 1020 5 0 [\<lparr>grid_x = 5, grid_y = 5, collidable = True\<rparr>] (Tank_init 175 112 False False None)
     \<noteq> Tank_init 175 112 False False None"
    by (simp add: Tank_move_def Tank_init_def Let_def BORDER_THICKNESS_def TILE_WIDTH_def
        TILE_HEIGHT_def TANK_SIZE_def TANK_SPEED_def pygame_Rect_def py_trunc_def Tile_rect_def
        colliderect_def collides_def)
  show ?thesis
    using ne move_atomic [of 1920 1020 5 0 "[\<lparr>grid_x = 5, grid_y = 5, collidable = True\<rparr>]"
        "Tank_init 175 112 False False None"]
    by (simp add: Tank_init_def collides_def)
qed

section \<open>Winner\<close>

lemma ex_less_Cons:
  "(\<exists>k < Suc n. Q k) \<longleftrightarrow> Q 0 \<or> (\<exists>k < n. Q (Suc k))"
  by (auto simp: less_Suc_eq_0_disj)

lemma top_loop_spec:
  "top_loop ts i (top_tank, tk, tie) = (top_tank', tk', tie') \<Longrightarrow>
     tk \<le> tk' \<and> (\<forall>t \<in> set ts. kills t \<le> tk') \<and>
     (tk' = tk \<longrightarrow> top_tank' = top_tank \<and> (tie' \<longleftrightarrow> tie \<or> (\<exists>k < length ts. kills (ts ! k) = tk))) \<and>
     (tk < tk' \<longrightarrow> (\<exists>j < length ts. top_tank' = Some (i + j) \<and> kills (ts ! j) = tk' \<and>
                       (tie' \<longleftrightarrow> (\<exists>k < length ts. k \<noteq> j \<and> kills (ts ! k) = tk'))))"
proof (induction ts arbitrary: i top_tank tk tie)
  case Nil
  then show ?case by simp
next
  case (Cons t ts)
  show ?case
  proof (cases "kills t > tk")
    case True
    with Cons.prems have run: "top_loop ts (i + 1) (Some i, kills t, False) = (top_tank', tk', tie')"
      by simp
    note ih = Cons.IH[OF run]
    show ?thesis
    proof (cases "tk' = kills t")
      case eq: True
      with ih have a: "top_tank' = Some i" "tie' \<longleftrightarrow> (\<exists>k < length ts. kills (ts ! k) = kills t)"
        and b: "\<forall>u \<in> set ts. kills u \<le> tk'" by auto
      have "0 < length (t # ts) \<and> top_tank' = Some (i + 0) \<and> kills ((t # ts) ! 0) = tk' \<and>
            (tie' \<longleftrightarrow> (\<exists>k < length (t # ts). k \<noteq> 0 \<and> kills ((t # ts) ! k) = tk'))"
        using a eq by (simp add: ex_less_Cons)
      then have "\<exists>j < length (t # ts). top_tank' = Some (i + j) \<and> kills ((t # ts) ! j) = tk' \<and>
            (tie' \<longleftrightarrow> (\<exists>k < length (t # ts). k \<noteq> j \<and> kills ((t # ts) ! k) = tk'))"
        by blast
      with b eq True show ?thesis by simp
    next
      case neq: False
      with ih have lt: "kills t < tk'" by auto
      with ih obtain j where j: "j < length ts" "top_tank' = Some (i + 1 + j)" "kills (ts ! j) = tk'"
        "tie' \<longleftrightarrow> (\<exists>k < length ts. k \<noteq> j \<and> kills (ts ! k) = tk')" by auto
      have "Suc j < length (t # ts) \<and> top_tank' = Some (i + Suc j) \<and> kills ((t # ts) ! Suc j) = tk' \<and>
            (tie' \<longleftrightarrow> (\<exists>k < length (t # ts). k \<noteq> Suc j \<and> kills ((t # ts) ! k) = tk'))"
        using j lt by (simp add: ex_less_Cons)
      then have "\<exists>j < length (t # ts). top_tank' = Some (i + j) \<and> kills ((t # ts) ! j) = tk' \<and>
            (tie' \<longleftrightarrow> (\<exists>k < length (t # ts). k \<noteq> j \<and> kills ((t # ts) ! k) = tk'))"
        by blast
      moreover have "\<forall>u \<in> set (t # ts). kills u \<le> tk'" using ih lt by auto
      ultimately show ?thesis using True lt by simp
    qed
  next
    case False
    show ?thesis
    proof (cases "kills t = tk")
      case eq: True
      with Cons.prems have run: "top_loop ts (i + 1) (top_tank, tk, True) = (top_tank', tk', tie')"
        by simp
      note ih = Cons.IH[OF run]
      have le: "tk \<le> tk'" "\<forall>u \<in> set (t # ts). kills u \<le> tk'" using ih eq by auto
      have c1: "tk' = tk \<longrightarrow> top_tank' = top_tank \<and>
                 (tie' \<longleftrightarrow> tie \<or> (\<exists>k < length (t # ts). kills ((t # ts) ! k) = tk))"
        using ih eq by (simp add: ex_less_Cons)
      have c2: "\<exists>j < length (t # ts). top_tank' = Some (i + j) \<and> kills ((t # ts) ! j) = tk' \<and>
            (tie' \<longleftrightarrow> (\<exists>k < length (t # ts). k \<noteq> j \<and> kills ((t # ts) ! k) = tk'))" if "tk < tk'"
      proof -
        from ih that obtain j where j: "j < length ts" "top_tank' = Some (i + 1 + j)" "kills (ts ! j) = tk'"
          "tie' \<longleftrightarrow> (\<exists>k < length ts. k \<noteq> j \<and> kills (ts ! k) = tk')" by auto
        have "Suc j < length (t # ts) \<and> top_tank' = Some (i + Suc j) \<and> kills ((t # ts) ! Suc j) = tk' \<and>
            (tie' \<longleftrightarrow> (\<exists>k < length (t # ts). k \<noteq> Suc j \<and> kills ((t # ts) ! k) = tk'))"
          using j that eq by (simp add: ex_less_Cons)
        then show ?thesis by blast
      qed
      from le c1 c2 show ?thesis by blast
    next
      case neq: False
      with False have lt: "kills t < tk" by simp
      with Cons.prems have run: "top_loop ts (i + 1) (top_tank, tk, tie) = (top_tank', tk', tie')"
        by simp
      note ih = Cons.IH[OF run]
      have le: "tk \<le> tk'" "\<forall>u \<in> set (t # ts). kills u \<le> tk'" using ih lt by auto
      have c1: "tk' = tk \<longrightarrow> top_tank' = top_tank \<and>
                 (tie' \<longleftrightarrow> tie \<or> (\<exists>k < length (t # ts). kills ((t # ts) ! k) = tk))"
        using ih lt by (simp add: ex_less_Cons)
      have c2: "\<exists>j < length (t # ts). top_tank' = Some (i + j) \<and> kills ((t # ts) ! j) = tk' \<and>
            (tie' \<longleftrightarrow> (\<exists>k < length (t # ts). k \<noteq> j \<and> kills ((t # ts) ! k) = tk'))" if "tk < tk'"
      proof -
        from ih that obtain j where j: "j < length ts" "top_tank' = Some (i + 1 + j)" "kills (ts ! j) = tk'"
          "tie' \<longleftrightarrow> (\<exists>k < length ts. k \<noteq> j \<and> kills (ts ! k) = tk')" by auto
        have "Suc j < length (t # ts) \<and> top_tank' = Some (i + Suc j) \<and> kills ((t # ts) ! Suc j) = tk' \<and>
            (tie' \<longleftrightarrow> (\<exists>k < length (t # ts). k \<noteq> Suc j \<and> kills ((t # ts) ! k) = tk'))"
          using j that lt le by (simp add: ex_less_Cons)
        then show ?thesis by blast
      qed
      from le c1 c2 show ?thesis by blast
    qed
  qed
qed

text \<open>
  C6. The winner is tank i exactly when tank i has a positive kill count that is
  strictly higher than the kill count of every other tank. So there is no winner when
  the highest count is zero or when two or more tanks share it: kills 3 and 3 give no
  winner, 3 and 1 give the first tank, 0 and 0 give no winner.
\<close>

theorem winner_iff:
  "winner ts = Some i \<longleftrightarrow>
     i < length ts \<and> 0 < kills (ts ! i) \<and> (\<forall>j < length ts. j \<noteq> i \<longrightarrow> kills (ts ! j) < kills (ts ! i))"
proof -
  obtain tp tk tie where run: "top_loop ts 0 (None, -1, False) = (tp, tk, tie)"
    by (metis prod_cases3)
  note sp = top_loop_spec[OF run]
  have w: "winner ts = (if tp = None \<or> tk \<le> 0 \<or> tie then None else tp)"
    by (simp add: winner_def run)
  have all: "\<forall>j < length ts. kills (ts ! j) \<le> tk" using sp by simp
  show ?thesis
  proof (cases "tk = -1")
    case True
    with sp have "tp = None" by simp
    with w all True show ?thesis by force
  next
    case False
    with sp have "-1 < tk" by simp
    with sp obtain j where j: "j < length ts" "tp = Some j" "kills (ts ! j) = tk"
      "tie \<longleftrightarrow> (\<exists>k < length ts. k \<noteq> j \<and> kills (ts ! k) = tk)" by auto
    show ?thesis
    proof
      assume "winner ts = Some i"
      with w j have "i = j" "0 < tk" "\<not> tie" by (auto split: if_splits)
      with j all show "i < length ts \<and> 0 < kills (ts ! i) \<and> (\<forall>j < length ts. j \<noteq> i \<longrightarrow> kills (ts ! j) < kills (ts ! i))"
        by (metis order_le_less)
    next
      assume r: "i < length ts \<and> 0 < kills (ts ! i) \<and> (\<forall>j < length ts. j \<noteq> i \<longrightarrow> kills (ts ! j) < kills (ts ! i))"
      have "i = j"
      proof (rule ccontr)
        assume "i \<noteq> j"
        with r j have "kills (ts ! j) < kills (ts ! i)" by auto
        with all r j show False by force
      qed
      with r j have "\<not> tie" "0 < tk" by auto
      with w j \<open>i = j\<close> show "winner ts = Some i" by simp
    qed
  qed
qed

theorem winner_iff_witness:
  "winner [(Tank_init 0 0 False False None)\<lparr>kills := 3\<rparr>, (Tank_init 0 0 False False None)\<lparr>kills := 1\<rparr>] = Some 0 \<and>
   winner [(Tank_init 0 0 False False None)\<lparr>kills := 3\<rparr>, (Tank_init 0 0 False False None)\<lparr>kills := 3\<rparr>] = None \<and>
   winner [Tank_init 0 0 False False None, Tank_init 0 0 False False None] = None"
proof -
  have "\<forall>j < length [(Tank_init 0 0 False False None)\<lparr>kills := 3\<rparr>, (Tank_init 0 0 False False None)\<lparr>kills := 1\<rparr>].
          j \<noteq> 0 \<longrightarrow> kills ([(Tank_init 0 0 False False None)\<lparr>kills := 3\<rparr>, (Tank_init 0 0 False False None)\<lparr>kills := 1\<rparr>] ! j)
            < kills ([(Tank_init 0 0 False False None)\<lparr>kills := 3\<rparr>, (Tank_init 0 0 False False None)\<lparr>kills := 1\<rparr>] ! 0)"
    by (simp add: less_Suc_eq)
  then have "winner [(Tank_init 0 0 False False None)\<lparr>kills := 3\<rparr>, (Tank_init 0 0 False False None)\<lparr>kills := 1\<rparr>] = Some 0"
    using winner_iff [of "[(Tank_init 0 0 False False None)\<lparr>kills := 3\<rparr>, (Tank_init 0 0 False False None)\<lparr>kills := 1\<rparr>]" 0]
    by simp
  then show ?thesis by (simp add: winner_def Tank_init_def)
qed

section \<open>State selection of the computer player\<close>

lemma sqrt_less_200: "sqrt s < 200 \<longleftrightarrow> s < 40000"
proof -
  have "sqrt 40000 = sqrt (200\<^sup>2)" by simp
  also have "\<dots> = 200" by simp
  finally have "sqrt 40000 = 200" .
  then show ?thesis using real_sqrt_less_iff[of s 40000] by simp
qed

lemma sqrt_less_400: "sqrt s < 400 \<longleftrightarrow> s < 160000"
proof -
  have "sqrt 160000 = sqrt (400\<^sup>2)" by simp
  also have "\<dots> = 400" by simp
  finally have "sqrt 160000 = 400" .
  then show ?thesis using real_sqrt_less_iff[of s 160000] by simp
qed

lemma upt20: "[0..<20] = [0,1,2,3,4,5,6,7,8,9,10,11,12,13,14,15,16,17,18,19]"
  by (simp add: upt_rec)

lemma upt2: "[0..<2] = [0, 1]" "[0..<Suc (Suc 0)] = [0, Suc 0]"
  by (simp_all add: upt_rec)

lemma has_line_of_sight_state [simp]:
  "has_line_of_sight (self\<lparr>ai_state := a\<rparr>) target tiles = has_line_of_sight self target tiles"
proof -
  have "sight_loop is (self\<lparr>ai_state := a\<rparr>) dx dy tiles = sight_loop is self dx dy tiles" for "is" dx dy
    by (induction "is") (simp_all add: Let_def)
  then show ?thesis by (simp add: has_line_of_sight_def Let_def)
qed

lemma ai_target_None: "ai_target ts i = None \<longleftrightarrow> \<not> (\<exists>j < length ts. j \<noteq> i \<and> alive (ts ! j))"
proof -
  have "ai_target ts i = None \<longleftrightarrow> filter (\<lambda>j. j \<noteq> i \<and> alive (ts ! j)) [0..<length ts] = []"
    by (simp add: ai_target_def split: list.splits)
  then show ?thesis by (auto simp: filter_empty_conv)
qed

lemma ai_target_Some:
  assumes "ai_target ts i = Some t"
  shows "\<exists>j < length ts. j \<noteq> i \<and> alive (ts ! j) \<and> t = ts ! j"
proof -
  from assms obtain j js where f: "filter (\<lambda>j. j \<noteq> i \<and> alive (ts ! j)) [0..<length ts] = j # js"
    and t: "t = ts ! j"
    by (auto simp: ai_target_def split: list.splits)
  from f have "j \<in> set (filter (\<lambda>j. j \<noteq> i \<and> alive (ts ! j)) [0..<length ts])" by simp
  then have "j < length ts \<and> j \<noteq> i \<and> alive (ts ! j)" by simp
  with t show ?thesis by blast
qed

lemma ai_target_two:
  assumes "length ts = 2" "i < 2" "\<forall>t \<in> set ts. alive t"
  shows "ai_target ts i = Some (ts ! (1 - i))"
proof -
  from assms(1) obtain t0 t1 where ts: "ts = [t0, t1]"
    by (cases ts; cases "tl ts") auto
  from assms(2) have "i = 0 \<or> i = 1" by auto
  with assms(3) show ?thesis by (auto simp: ts ai_target_def upt2)
qed

text \<open>
  C1. On a tick of the computer player at index i of the tank list, with the target that
  \<open>Game.run\<close> chooses for it, the state that \<open>update_ai\<close> leaves is: patrol when no other
  tank of the list is alive; otherwise, with the first living other tank as the opponent,
  attack when the distance is below 200 and the line of sight is clear, else pursue when
  the distance is below 400, else patrol. The target is None exactly when no other tank
  is alive, and a target that is chosen is alive and the state selection raises nothing.
  In a list of two living tanks, which is what \<open>start_game\<close> builds and the collision
  check keeps (\<open>alive\<close> is only ever assigned True), the target is the other tank.
\<close>

theorem ai_state_rule:
  "ai_state (snd (update_ai_state tiles (ai_target ts i) (ts ! i))) =
     (case ai_target ts i of
        None \<Rightarrow> patrol
      | Some target \<Rightarrow>
          if distance_to (ts ! i) target < 200 \<and> has_line_of_sight (ts ! i) target tiles then attack
          else if distance_to (ts ! i) target < 400 then pursue
          else patrol) \<and>
   (ai_target ts i = None \<longleftrightarrow> \<not> (\<exists>j < length ts. j \<noteq> i \<and> alive (ts ! j))) \<and>
   (\<forall>target. ai_target ts i = Some target \<longrightarrow>
      alive target \<and> fst (update_ai_state tiles (ai_target ts i) (ts ! i)) = None) \<and>
   (length ts = 2 \<and> i < 2 \<and> (\<forall>t \<in> set ts. alive t) \<longrightarrow> ai_target ts i = Some (ts ! (1 - i)))"
proof -
  have a: "ai_state (snd (update_ai_state tiles (ai_target ts i) (ts ! i))) =
     (case ai_target ts i of
        None \<Rightarrow> patrol
      | Some target \<Rightarrow>
          if distance_to (ts ! i) target < 200 \<and> has_line_of_sight (ts ! i) target tiles then attack
          else if distance_to (ts ! i) target < 400 then pursue
          else patrol)"
    by (cases "ai_target ts i") (simp_all add: update_ai_state_def Let_def distance_to_def)
  have c: "alive target \<and> fst (update_ai_state tiles (ai_target ts i) (ts ! i)) = None"
    if "ai_target ts i = Some target" for target
  proof -
    from ai_target_Some[OF that] have "alive target" by blast
    then show ?thesis by (simp add: that update_ai_state_def Let_def)
  qed
  from a ai_target_None[of ts i] c ai_target_two[of ts i] show ?thesis by blast
qed

theorem ai_state_rule_witness:
  "ai_target [Tank_init 100 100 False False None, Tank_init 250 100 True False None] 1
     = Some (Tank_init 100 100 False False None) \<and>
   ai_state (snd (update_ai_state [] (ai_target [Tank_init 100 100 False False None,
       Tank_init 250 100 True False None] 1) (Tank_init 250 100 True False None))) = attack \<and>
   ai_state (snd (update_ai_state [] (ai_target [(Tank_init 100 100 False False None)\<lparr>alive := False\<rparr>,
       Tank_init 250 100 True False None] 1) (Tank_init 250 100 True False None))) = patrol"
proof -
  let ?h = "Tank_init 100 100 False False None" and ?a = "Tank_init 250 100 True False None"
  have t: "ai_target [?h, ?a] 1 = Some ?h"
    by (simp add: ai_target_def upt2 Tank_init_def)
  have n: "ai_target [?h\<lparr>alive := False\<rparr>, ?a] 1 = None"
    by (simp add: ai_target_def upt2 Tank_init_def)
  have d: "distance_to ?a ?h < 200"
    by (simp add: distance_to_def Tank_init_def sqrt_less_200)
  have l: "has_line_of_sight ?a ?h []"
    by (simp add: has_line_of_sight_def upt20)
  have r1: "ai_state (snd (update_ai_state [] (ai_target [?h, ?a] 1) ([?h, ?a] ! 1))) =
     (case ai_target [?h, ?a] 1 of
        None \<Rightarrow> patrol
      | Some target \<Rightarrow>
          if distance_to ([?h, ?a] ! 1) target < 200 \<and> has_line_of_sight ([?h, ?a] ! 1) target [] then attack
          else if distance_to ([?h, ?a] ! 1) target < 400 then pursue
          else patrol)"
    using ai_state_rule [of "[]" "[?h, ?a]" 1] by (rule conjunct1)
  have r2: "ai_state (snd (update_ai_state [] (ai_target [?h\<lparr>alive := False\<rparr>, ?a] 1)
        ([?h\<lparr>alive := False\<rparr>, ?a] ! 1))) =
     (case ai_target [?h\<lparr>alive := False\<rparr>, ?a] 1 of
        None \<Rightarrow> patrol
      | Some target \<Rightarrow>
          if distance_to ([?h\<lparr>alive := False\<rparr>, ?a] ! 1) target < 200 \<and>
             has_line_of_sight ([?h\<lparr>alive := False\<rparr>, ?a] ! 1) target [] then attack
          else if distance_to ([?h\<lparr>alive := False\<rparr>, ?a] ! 1) target < 400 then pursue
          else patrol)"
    using ai_state_rule [of "[]" "[?h\<lparr>alive := False\<rparr>, ?a]" 1] by (rule conjunct1)
  have w1: "ai_state (snd (update_ai_state [] (ai_target [?h, ?a] 1) ?a)) = attack"
    using r1 unfolding t by (simp add: d l)
  have w2: "ai_state (snd (update_ai_state [] (ai_target [?h\<lparr>alive := False\<rparr>, ?a] 1) ?a)) = patrol"
    using r2 unfolding n by simp
  from t w1 w2 show ?thesis by blast
qed


section \<open>The occupancy grid\<close>

lemma grid_store_marks:
  assumes "rect_grid w h g" "0 \<le> x" "x < int w" "0 \<le> y" "y < int h"
  shows "\<exists>g'. grid_store g x y = Inr g' \<and> marks w h (\<lambda>a b. int a = x \<and> int b = y) g g'"
proof -
  from assms have len: "length g = w" "length (g ! nat x) = h" "nat x < w" "nat y < h"
    by (auto simp: rect_grid_def)
  then have st: "grid_store g x y = Inr (g[nat x := (g ! nat x)[nat y := True]])"
    using assms by (simp add: grid_store_def py_index_def)
  have "rect_grid w h (g[nat x := (g ! nat x)[nat y := True]])"
    using assms len by (auto simp: rect_grid_def dest!: set_update_subset_insert[THEN subsetD])
  moreover have "(g[nat x := (g ! nat x)[nat y := True]]) ! a ! b = (g ! a ! b \<or> (int a = x \<and> int b = y))"
    if "a < w" "b < h" for a b
  proof (cases "a = nat x")
    case True
    then show ?thesis using len that assms by (cases "b = nat y") auto
  next
    case False
    then show ?thesis using len that assms by auto
  qed
  ultimately show ?thesis using st by (simp add: marks_def)
qed

lemma marks_skip: "rect_grid w h g \<Longrightarrow> (\<And>x y. \<not> f x y) \<Longrightarrow> marks w h f g g"
  by (simp add: marks_def)

lemma marks_trans:
  "marks w h f g g1 \<Longrightarrow> marks w h f' g1 g2 \<Longrightarrow> marks w h (\<lambda>x y. f x y \<or> f' x y) g g2"
  by (auto simp: marks_def)

lemma marks_cong: "marks w h f g g' \<Longrightarrow> (\<And>x y. x < w \<Longrightarrow> y < h \<Longrightarrow> f x y = f' x y) \<Longrightarrow> marks w h f' g g'"
  by (auto simp: marks_def)

lemma marks_rect: "marks w h f g g' \<Longrightarrow> rect_grid w h g'"
  by (simp add: marks_def)

lemma for_each_marks:
  assumes body: "\<And>a g. a \<in> set xs \<Longrightarrow> rect_grid w h g \<Longrightarrow> \<exists>g'. body a g = Inr g' \<and> marks w h (P a) g g'"
    and "rect_grid w h g"
  shows "\<exists>g'. for_each xs body g = Inr g' \<and> marks w h (\<lambda>x y. \<exists>a \<in> set xs. P a x y) g g'"
  using assms
proof (induction xs arbitrary: g)
  case Nil
  then show ?case by (simp add: marks_def)
next
  case (Cons a xs)
  from Cons.prems obtain g1 where g1: "body a g = Inr g1" "marks w h (P a) g g1"
    by (meson list.set_intros(1))
  have "\<exists>g'. for_each xs body g1 = Inr g' \<and> marks w h (\<lambda>x y. \<exists>a \<in> set xs. P a x y) g1 g'"
    using Cons.prems(1) marks_rect[OF g1(2)] by (intro Cons.IH) auto
  then obtain g2 where g2: "for_each xs body g1 = Inr g2" "marks w h (\<lambda>x y. \<exists>a \<in> set xs. P a x y) g1 g2"
    by blast
  have "marks w h (\<lambda>x y. \<exists>b \<in> set (a # xs). P b x y) g g2"
    by (rule marks_cong[OF marks_trans[OF g1(2) g2(2)]]) auto
  with g1 g2 show ?case by (simp add: and_then_def)
qed

lemma guarded_store_marks:
  assumes "rect_grid w h g" "c \<Longrightarrow> 0 \<le> x \<and> x < int w \<and> 0 \<le> y \<and> y < int h"
  shows "\<exists>g'. (if c then grid_store g x y else Inr g) = Inr g' \<and>
               marks w h (\<lambda>a b. c \<and> int a = x \<and> int b = y) g g'"
proof (cases c)
  case True
  with assms grid_store_marks[of w h g x y] show ?thesis by simp
next
  case False
  with assms(1) show ?thesis by (simp add: marks_def)
qed

lemma two_stores_marks:
  assumes "rect_grid w h g"
    and "c1 \<Longrightarrow> 0 \<le> x1 \<and> x1 < int w \<and> 0 \<le> y1 \<and> y1 < int h"
    and "c2 \<Longrightarrow> 0 \<le> x2 \<and> x2 < int w \<and> 0 \<le> y2 \<and> y2 < int h"
  shows "\<exists>g'. and_then (if c1 then grid_store g x1 y1 else Inr g)
                 (\<lambda>g. if c2 then grid_store g x2 y2 else Inr g) = Inr g' \<and>
               marks w h (\<lambda>a b. (c1 \<and> int a = x1 \<and> int b = y1) \<or> (c2 \<and> int a = x2 \<and> int b = y2)) g g'"
proof -
  from guarded_store_marks[OF assms(1,2)] obtain g1 where
    g1: "(if c1 then grid_store g x1 y1 else Inr g) = Inr g1"
        "marks w h (\<lambda>a b. c1 \<and> int a = x1 \<and> int b = y1) g g1" by blast
  from guarded_store_marks[OF marks_rect[OF g1(2)] assms(3)] obtain g2 where
    g2: "(if c2 then grid_store g1 x2 y2 else Inr g1) = Inr g2"
        "marks w h (\<lambda>a b. c2 \<and> int a = x2 \<and> int b = y2) g1 g2" by blast
  from marks_trans[OF g1(2) g2(2)] g1(1) g2(1) show ?thesis
    by (simp add: and_then_def)
qed

lemma set_py_range: "set (py_range n) = {i. 0 \<le> i \<and> i < n}"
proof (intro set_eqI iffI)
  fix i assume "i \<in> set (py_range n)"
  then obtain k where "i = int k" "k < nat n" by (auto simp: py_range_def)
  then show "i \<in> {i. 0 \<le> i \<and> i < n}" by auto
next
  fix i assume "i \<in> {i. 0 \<le> i \<and> i < n}"
  then have "i = int (nat i)" "nat i < nat n" by auto
  then show "i \<in> set (py_range n)" unfolding py_range_def by (metis atLeast0LessThan image_eqI lessThan_iff set_map set_upt)
qed

lemma border_consts:
  "max 1 \<lceil>of_int BORDER_THICKNESS / (of_int TILE_WIDTH :: real)\<rceil> = 1"
  "max 1 \<lceil>of_int BORDER_THICKNESS / (of_int TILE_HEIGHT :: real)\<rceil> = 1"
  by (simp_all add: BORDER_THICKNESS_def)

lemma rows_body_marks:
  assumes "rect_grid w h g" "0 \<le> x" "x < int w" "0 \<le> by" "int h = grid_h"
  shows "\<exists>g'. border_rows_body grid_h x by g = Inr g' \<and>
               marks w h (\<lambda>a b. int a = x \<and> (int b = by \<or> int b = grid_h - 1 - by)) g g'"
proof -
  have "\<exists>g'. and_then (if 0 \<le> by \<and> by < grid_h then grid_store g x by else Inr g)
                 (\<lambda>g. if 0 \<le> grid_h - 1 - by \<and> grid_h - 1 - by < grid_h
                       then grid_store g x (grid_h - 1 - by) else Inr g) = Inr g' \<and>
               marks w h (\<lambda>a b. ((0 \<le> by \<and> by < grid_h) \<and> int a = x \<and> int b = by) \<or>
                  ((0 \<le> grid_h - 1 - by \<and> grid_h - 1 - by < grid_h) \<and> int a = x \<and> int b = grid_h - 1 - by)) g g'"
    by (rule two_stores_marks[OF assms(1)]) (use assms in auto)
  then obtain g' where g': "border_rows_body grid_h x by g = Inr g'"
     "marks w h (\<lambda>a b. ((0 \<le> by \<and> by < grid_h) \<and> int a = x \<and> int b = by) \<or>
                  ((0 \<le> grid_h - 1 - by \<and> grid_h - 1 - by < grid_h) \<and> int a = x \<and> int b = grid_h - 1 - by)) g g'"
    unfolding border_rows_body_def by blast
  have "marks w h (\<lambda>a b. int a = x \<and> (int b = by \<or> int b = grid_h - 1 - by)) g g'"
    by (rule marks_cong[OF g'(2)]) (use assms in auto)
  with g'(1) show ?thesis by blast
qed

lemma cols_body_marks:
  assumes "rect_grid w h g" "0 \<le> y" "y < int h" "0 \<le> bx" "int w = grid_w"
  shows "\<exists>g'. border_cols_body grid_w y bx g = Inr g' \<and>
               marks w h (\<lambda>a b. int b = y \<and> (int a = bx \<or> int a = grid_w - 1 - bx)) g g'"
proof -
  have "\<exists>g'. and_then (if 0 \<le> bx \<and> bx < grid_w then grid_store g bx y else Inr g)
                 (\<lambda>g. if 0 \<le> grid_w - 1 - bx \<and> grid_w - 1 - bx < grid_w
                       then grid_store g (grid_w - 1 - bx) y else Inr g) = Inr g' \<and>
               marks w h (\<lambda>a b. ((0 \<le> bx \<and> bx < grid_w) \<and> int a = bx \<and> int b = y) \<or>
                  ((0 \<le> grid_w - 1 - bx \<and> grid_w - 1 - bx < grid_w) \<and> int a = grid_w - 1 - bx \<and> int b = y)) g g'"
    by (rule two_stores_marks[OF assms(1)]) (use assms in auto)
  then obtain g' where g': "border_cols_body grid_w y bx g = Inr g'"
     "marks w h (\<lambda>a b. ((0 \<le> bx \<and> bx < grid_w) \<and> int a = bx \<and> int b = y) \<or>
                  ((0 \<le> grid_w - 1 - bx \<and> grid_w - 1 - bx < grid_w) \<and> int a = grid_w - 1 - bx \<and> int b = y)) g g'"
    unfolding border_cols_body_def by blast
  have "marks w h (\<lambda>a b. int b = y \<and> (int a = bx \<or> int a = grid_w - 1 - bx)) g g'"
    by (rule marks_cong[OF g'(2)]) (use assms in auto)
  with g'(1) show ?thesis by blast
qed

lemma tile_body_marks:
  assumes "rect_grid w h g" "int w = grid_w" "int h = grid_h"
  shows "\<exists>g'. tile_body grid_w grid_h t g = Inr g' \<and>
               marks w h (\<lambda>a b. collides t \<and> grid_x t = int a \<and> grid_y t = int b) g g'"
proof -
  let ?c = "0 \<le> grid_x t \<and> grid_x t < grid_w \<and> 0 \<le> grid_y t \<and> grid_y t < grid_h \<and> collides t"
  have "\<exists>g'. (if ?c then grid_store g (grid_x t) (grid_y t) else Inr g) = Inr g' \<and>
               marks w h (\<lambda>a b. ?c \<and> int a = grid_x t \<and> int b = grid_y t) g g'"
    by (rule guarded_store_marks[OF assms(1)]) (use assms in auto)
  then obtain g' where g': "tile_body grid_w grid_h t g = Inr g'"
     "marks w h (\<lambda>a b. ?c \<and> int a = grid_x t \<and> int b = grid_y t) g g'"
    unfolding tile_body_def Let_def by blast
  have "marks w h (\<lambda>a b. collides t \<and> grid_x t = int a \<and> grid_y t = int b) g g'"
    by (rule marks_cong[OF g'(2)]) (use assms in auto)
  with g'(1) show ?thesis by blast
qed

lemma rows_loop_marks:
  assumes "rect_grid w h g" "x \<in> set (py_range grid_w)" "int w = grid_w" "int h = grid_h"
  shows "\<exists>g'. for_each (py_range n) (border_rows_body grid_h x) g = Inr g' \<and>
          marks w h (\<lambda>a b. \<exists>by \<in> set (py_range n). int a = x \<and> (int b = by \<or> int b = grid_h - 1 - by)) g g'"
proof (rule for_each_marks[OF _ assms(1)])
  fix a g assume "a \<in> set (py_range n)" "rect_grid w h g"
  then show "\<exists>g'. border_rows_body grid_h x a g = Inr g' \<and>
       marks w h (\<lambda>aa b. int aa = x \<and> (int b = a \<or> int b = grid_h - 1 - a)) g g'"
    using assms by (intro rows_body_marks) (auto simp: set_py_range)
qed

lemma cols_loop_marks:
  assumes "rect_grid w h g" "y \<in> set (py_range grid_h)" "int w = grid_w" "int h = grid_h"
  shows "\<exists>g'. for_each (py_range n) (border_cols_body grid_w y) g = Inr g' \<and>
          marks w h (\<lambda>a b. \<exists>bx \<in> set (py_range n). int b = y \<and> (int a = bx \<or> int a = grid_w - 1 - bx)) g g'"
proof (rule for_each_marks[OF _ assms(1)])
  fix a g assume "a \<in> set (py_range n)" "rect_grid w h g"
  then show "\<exists>g'. border_cols_body grid_w y a g = Inr g' \<and>
       marks w h (\<lambda>aa b. int b = y \<and> (int aa = a \<or> int aa = grid_w - 1 - a)) g g'"
    using assms by (intro cols_body_marks) (auto simp: set_py_range)
qed

lemma built_grid_cells:
  "\<exists>grid. create_grid_map sw sh tiles = Inr grid \<and>
     length grid = nat (max 1 (sw div TILE_WIDTH)) \<and>
     (\<forall>x < length grid.
        length (grid ! x) = nat (max 1 (sh div TILE_HEIGHT)) \<and>
        (\<forall>y < length (grid ! x).
           grid ! x ! y \<longleftrightarrow>
             (\<exists>t \<in> set tiles. collides t \<and> grid_x t = int x \<and> grid_y t = int y) \<or>
             x = 0 \<or> x = length grid - 1 \<or> y = 0 \<or> y = length (grid ! x) - 1))"
proof -
  define grid_w where "grid_w = max 1 (sw div TILE_WIDTH)"
  define grid_h where "grid_h = max 1 (sh div TILE_HEIGHT)"
  define w where "w = nat grid_w"
  define h where "h = nat grid_h"
  define g0 where "g0 = replicate w (replicate h False)"
  have pos: "int w = grid_w" "int h = grid_h" "0 < w" "0 < h"
    by (auto simp: grid_w_def grid_h_def w_def h_def)
  have r0: "rect_grid w h g0" by (simp add: g0_def rect_grid_def)
  obtain g1 where g1: "for_each (py_range grid_w) (\<lambda>x. for_each (py_range 1) (border_rows_body grid_h x)) g0 = Inr g1"
    "marks w h (\<lambda>a b. \<exists>x \<in> set (py_range grid_w). \<exists>by \<in> set (py_range 1).
        int a = x \<and> (int b = by \<or> int b = grid_h - 1 - by)) g0 g1"
    using for_each_marks[of "py_range grid_w" w h "\<lambda>x. for_each (py_range 1) (border_rows_body grid_h x)"
        "\<lambda>x a b. \<exists>by \<in> set (py_range 1). int a = x \<and> (int b = by \<or> int b = grid_h - 1 - by)" g0,
        OF rows_loop_marks[OF _ _ pos(1,2)] r0]
    by blast
  obtain g2 where g2: "for_each (py_range grid_h) (\<lambda>y. for_each (py_range 1) (border_cols_body grid_w y)) g1 = Inr g2"
    "marks w h (\<lambda>a b. \<exists>y \<in> set (py_range grid_h). \<exists>bx \<in> set (py_range 1).
        int b = y \<and> (int a = bx \<or> int a = grid_w - 1 - bx)) g1 g2"
    using for_each_marks[of "py_range grid_h" w h "\<lambda>y. for_each (py_range 1) (border_cols_body grid_w y)"
        "\<lambda>y a b. \<exists>bx \<in> set (py_range 1). int b = y \<and> (int a = bx \<or> int a = grid_w - 1 - bx)" g1,
        OF cols_loop_marks[OF _ _ pos(1,2)] marks_rect[OF g1(2)]]
    by blast
  obtain g3 where g3: "for_each tiles (tile_body grid_w grid_h) g2 = Inr g3"
    "marks w h (\<lambda>a b. \<exists>t \<in> set tiles. collides t \<and> grid_x t = int a \<and> grid_y t = int b) g2 g3"
    using for_each_marks[of tiles w h "tile_body grid_w grid_h"
        "\<lambda>t a b. collides t \<and> grid_x t = int a \<and> grid_y t = int b" g2,
        OF tile_body_marks[OF _ pos(1,2)] marks_rect[OF g2(2)]]
    by blast
  have res: "create_grid_map sw sh tiles = Inr g3"
    unfolding create_grid_map_def Let_def border_consts
      grid_w_def[symmetric] grid_h_def[symmetric] w_def[symmetric] h_def[symmetric] g0_def[symmetric]
    by (simp only: g1(1) g2(1) g3(1) and_then_def sum.case)
  have m: "marks w h (\<lambda>x y. (\<exists>t \<in> set tiles. collides t \<and> grid_x t = int x \<and> grid_y t = int y) \<or>
             x = 0 \<or> x = w - 1 \<or> y = 0 \<or> y = h - 1) g0 g3"
    by (rule marks_cong[OF marks_trans[OF marks_trans[OF g1(2) g2(2)] g3(2)]])
      (use pos in \<open>auto simp: set_py_range\<close>)
  have len: "length g3 = w" "\<forall>x < w. length (g3 ! x) = h"
    using m by (auto simp: marks_def rect_grid_def)
  have cell: "g3 ! x ! y \<longleftrightarrow> (\<exists>t \<in> set tiles. collides t \<and> grid_x t = int x \<and> grid_y t = int y) \<or>
             x = 0 \<or> x = w - 1 \<or> y = 0 \<or> y = h - 1" if "x < w" "y < h" for x y
    using m that by (simp add: marks_def g0_def)
  show ?thesis
    unfolding grid_w_def[symmetric] grid_h_def[symmetric] w_def[symmetric] h_def[symmetric]
    using res len cell by simp
qed

lemma grid_cell_built:
  assumes "x < nat (max 1 (sw div TILE_WIDTH))" "y < nat (max 1 (sh div TILE_HEIGHT))"
  shows "grid_cell (create_grid_map sw sh tiles) x y =
           Some ((\<exists>t \<in> set tiles. collides t \<and> grid_x t = int x \<and> grid_y t = int y) \<or>
                 x = 0 \<or> x = nat (max 1 (sw div TILE_WIDTH)) - 1 \<or>
                 y = 0 \<or> y = nat (max 1 (sh div TILE_HEIGHT)) - 1)"
proof -
  from built_grid_cells[of sw sh tiles] obtain grid where
    g: "create_grid_map sw sh tiles = Inr grid" "length grid = nat (max 1 (sw div TILE_WIDTH))"
      "\<forall>x < length grid.
        length (grid ! x) = nat (max 1 (sh div TILE_HEIGHT)) \<and>
        (\<forall>y < length (grid ! x).
           grid ! x ! y \<longleftrightarrow>
             (\<exists>t \<in> set tiles. collides t \<and> grid_x t = int x \<and> grid_y t = int y) \<or>
             x = 0 \<or> x = length grid - 1 \<or> y = 0 \<or> y = length (grid ! x) - 1)"
    by blast
  from g(2,3) assms have l: "x < length grid" "length (grid ! x) = nat (max 1 (sh div TILE_HEIGHT))"
    by auto
  with g(3) assms have "grid ! x ! y \<longleftrightarrow>
             (\<exists>t \<in> set tiles. collides t \<and> grid_x t = int x \<and> grid_y t = int y) \<or>
             x = 0 \<or> x = length grid - 1 \<or> y = 0 \<or> y = length (grid ! x) - 1"
    by auto
  with g(1,2) l assms show ?thesis by (simp add: grid_cell_def)
qed

text \<open>
  C3, as stated, fails. On the default screen of 1920 by 1020 with no tiles, the cell
  (26, 5) of the last column is occupied; it holds no tile, and its rectangle ends at
  x = 1890, 30 units from the right edge of the world, while the border margin
  BORDER_THICKNESS is 0. Read with the margin of 70 units that \<open>Tank.move\<close> keeps, the
  claim fails the other way: the cell (5, 1), whose rectangle starts at y = 45, is
  within the margin, holds no tile and is not occupied.
\<close>

theorem occupied_outside_margin:
  "grid_cell (create_grid_map 1920 1020 []) 26 5 = Some True \<and>
   \<not> within_border_margin BORDER_THICKNESS 1920 1020 26 5 \<and>
   grid_cell (create_grid_map 1920 1020 []) 5 1 = Some False \<and>
   within_border_margin (max BORDER_THICKNESS (max TILE_WIDTH TILE_HEIGHT)) 1920 1020 5 1"
proof -
  have "grid_cell (create_grid_map 1920 1020 []) 26 5 = Some True"
    by (subst grid_cell_built) (simp_all add: TILE_WIDTH_def TILE_HEIGHT_def)
  moreover have "grid_cell (create_grid_map 1920 1020 []) 5 1 = Some False"
    by (subst grid_cell_built) (simp_all add: TILE_WIDTH_def TILE_HEIGHT_def)
  ultimately show ?thesis
    by (simp add: within_border_margin_def TILE_WIDTH_def TILE_HEIGHT_def BORDER_THICKNESS_def)
qed

text \<open>
  C3, amended. Building the grid raises no error, whatever the screen size and the
  tiles (none included). The grid has max(1, SCREEN_WIDTH // TILE_WIDTH) columns of
  max(1, SCREEN_HEIGHT // TILE_HEIGHT) cells, and a cell is occupied exactly when a tile
  that collides has its grid coordinates, or the cell is in the first or last column or
  in the first or last row of the grid.
\<close>

theorem grid_occupancy:
  "\<exists>grid. create_grid_map sw sh tiles = Inr grid \<and>
     length grid = nat (max 1 (sw div TILE_WIDTH)) \<and>
     (\<forall>x < length grid.
        length (grid ! x) = nat (max 1 (sh div TILE_HEIGHT)) \<and>
        (\<forall>y < length (grid ! x).
           grid ! x ! y \<longleftrightarrow>
             (\<exists>t \<in> set tiles. collides t \<and> grid_x t = int x \<and> grid_y t = int y) \<or>
             x = 0 \<or> x = length grid - 1 \<or> y = 0 \<or> y = length (grid ! x) - 1))"
  by (rule built_grid_cells)

theorem grid_occupancy_witness:
  "grid_cell (create_grid_map 1920 1020 [\<lparr>grid_x = 5, grid_y = 5, collidable = True\<rparr>,
                                         \<lparr>grid_x = 7, grid_y = 7, collidable = False\<rparr>]) 5 5 = Some True \<and>
   grid_cell (create_grid_map 1920 1020 [\<lparr>grid_x = 5, grid_y = 5, collidable = True\<rparr>,
                                         \<lparr>grid_x = 7, grid_y = 7, collidable = False\<rparr>]) 7 7 = Some False \<and>
   grid_cell (create_grid_map 1920 1020 [\<lparr>grid_x = 5, grid_y = 5, collidable = True\<rparr>,
                                         \<lparr>grid_x = 7, grid_y = 7, collidable = False\<rparr>]) 0 7 = Some True"
proof -
  let ?tiles = "[\<lparr>grid_x = 5, grid_y = 5, collidable = True\<rparr>, \<lparr>grid_x = 7, grid_y = 7, collidable = False\<rparr>]"
  from grid_occupancy[of 1920 1020 ?tiles] obtain grid where
    g: "create_grid_map 1920 1020 ?tiles = Inr grid" "length grid = nat (max 1 (1920 div TILE_WIDTH))"
      "\<forall>x < length grid.
        length (grid ! x) = nat (max 1 (1020 div TILE_HEIGHT)) \<and>
        (\<forall>y < length (grid ! x).
           grid ! x ! y \<longleftrightarrow>
             (\<exists>t \<in> set ?tiles. collides t \<and> grid_x t = int x \<and> grid_y t = int y) \<or>
             x = 0 \<or> x = length grid - 1 \<or> y = 0 \<or> y = length (grid ! x) - 1)"
    by blast
  have len: "length grid = 27" using g(2) by (simp add: TILE_WIDTH_def)
  have col: "length (grid ! 5) = 22" "length (grid ! 7) = 22" "length (grid ! 0) = 22"
    using g(3) len by (simp_all add: TILE_HEIGHT_def)
  have "grid ! 5 ! 5" "\<not> grid ! 7 ! 7" "grid ! 0 ! 7"
    using g(3) len col by (simp_all add: collides_def)
  then show ?thesis using g(1) len col by (simp add: grid_cell_def)
qed

section \<open>Hits\<close>

text \<open>
  One visit of the innermost loop, for a tank i and an active bullet whose box overlaps
  the footprint of the tank.
\<close>

lemma bullet_visit_outcome:
  assumes "i < length (tanks g)"
    and "bullet_owner (bullet_store g a) < length (tanks g)"
    and "active (bullet_store g a)"
    and "colliderect (get_rect (tanks g ! i)) (bullet_rect (bullet_store g a))"
  shows "\<not> active (bullet_store (bullet_visit i a g) a) \<and>
         deaths (tanks (bullet_visit i a g) ! i) = deaths (tanks g ! i) + 1 \<and>
         (bullet_owner (bullet_store g a) \<noteq> i \<longrightarrow>
            kills (tanks (bullet_visit i a g) ! bullet_owner (bullet_store g a))
              = kills (tanks g ! bullet_owner (bullet_store g a)) + 1 \<and>
            suicides (tanks (bullet_visit i a g) ! i) = suicides (tanks g ! i)) \<and>
         (bullet_owner (bullet_store g a) = i \<longrightarrow>
            suicides (tanks (bullet_visit i a g) ! i) = suicides (tanks g ! i) + 1 \<and>
            kills (tanks (bullet_visit i a g) ! i) = kills (tanks g ! i)) \<and>
         (tank_x (tanks (bullet_visit i a g) ! i), tank_y (tanks (bullet_visit i a g) ! i))
            = spawn_point (tanks g ! i) \<and>
         bullets (tanks (bullet_visit i a g) ! i) = []"
  using assms by (auto simp: bullet_visit_def hit_def Let_def respawn_def)

lemmas geom_eval = get_rect_def bullet_rect_def pygame_Rect_def py_trunc_def colliderect_def
  Tank_init_def Bullet_init_def TANK_SIZE_def TANK_SPEED_def BULLET_SIZE_def BULLET_SPEED_def

lemma hit_frame:
  "state (hit i a g) = state g" "match_start (hit i a g) = match_start g"
  "match_end (hit i a g) = match_end g" "length (tanks (hit i a g)) = length (tanks g)"
  by (simp_all add: hit_def Let_def)

lemma bullet_visit_frame:
  "state (bullet_visit i a g) = state g" "match_start (bullet_visit i a g) = match_start g"
  "match_end (bullet_visit i a g) = match_end g"
  "length (tanks (bullet_visit i a g)) = length (tanks g)"
  by (simp_all add: bullet_visit_def hit_frame)

lemma linked_append: "linked s xs m \<Longrightarrow> linked m ys t \<Longrightarrow> linked s (xs @ ys) t"
  by (induction s xs m rule: linked.induct) auto

lemma bullets_steps_linked: "linked g (bullets_steps i as g) (bullets_loop i as g)"
  by (induction as arbitrary: g) auto

lemma others_steps_linked: "linked g (others_steps i js g) (others_loop i js g)"
proof (induction js arbitrary: g)
  case Nil
  show ?case by simp
next
  case (Cons j js)
  show ?case
  proof (cases "alive (tanks g ! j)")
    case True
    from linked_append[OF bullets_steps_linked[of g i "bullets (tanks g ! j)"]
        Cons.IH[of "bullets_loop i (bullets (tanks g ! j)) g"]] True
    show ?thesis by simp
  next
    case False
    with Cons.IH[of g] show ?thesis by simp
  qed
qed

lemma tanks_steps_linked: "linked g (tanks_steps is g) (tanks_loop is g)"
proof (induction "is" arbitrary: g)
  case Nil
  show ?case by simp
next
  case (Cons i "is")
  show ?case
  proof (cases "alive (tanks g ! i)")
    case True
    from linked_append[OF others_steps_linked[of g i "[0..<length (tanks g)]"]
        Cons.IH[of "others_loop i [0..<length (tanks g)] g"]] True
    show ?thesis by simp
  next
    case False
    with Cons.IH[of g] show ?thesis by simp
  qed
qed

lemma check_steps_linked: "linked g (check_steps g) (check_collisions g)"
  by (simp add: check_steps_def check_collisions_def tanks_steps_linked)

lemma bullet_visit_alive:
  "i < length (tanks g) \<Longrightarrow> alive (tanks g ! i) \<Longrightarrow> alive (tanks (bullet_visit i a g) ! i)"
  by (simp add: bullet_visit_def hit_def Let_def respawn_def)

lemma bullets_loop_keeps:
  "length (tanks (bullets_loop i as g)) = length (tanks g) \<and>
   (i < length (tanks g) \<and> alive (tanks g ! i) \<longrightarrow> alive (tanks (bullets_loop i as g) ! i))"
  by (induction as arbitrary: g) (simp_all add: bullet_visit_frame bullet_visit_alive)

lemma others_loop_keeps:
  "length (tanks (others_loop i js g)) = length (tanks g) \<and>
   (i < length (tanks g) \<and> alive (tanks g ! i) \<longrightarrow> alive (tanks (others_loop i js g) ! i))"
  by (induction js arbitrary: g) (simp_all add: bullets_loop_keeps)

lemma bullets_steps_visit:
  assumes "(k, a, b, c) \<in> set (bullets_steps i as g)" "i < length (tanks g)" "alive (tanks g ! i)"
  shows "k = i \<and> length (tanks b) = length (tanks g) \<and> alive (tanks b ! i) \<and> c = bullet_visit i a b"
  using assms
proof (induction as arbitrary: g)
  case Nil
  then show ?case by simp
next
  case (Cons x as)
  show ?case
  proof (cases "(k, a, b, c) = (i, x, g, bullet_visit i x g)")
    case True
    with Cons.prems show ?thesis by simp
  next
    case False
    with Cons.prems(1) have "(k, a, b, c) \<in> set (bullets_steps i as (bullet_visit i x g))" by auto
    from Cons.IH[OF this] Cons.prems(2,3) show ?thesis
      by (simp add: bullet_visit_frame bullet_visit_alive)
  qed
qed

lemma others_steps_visit:
  assumes "(k, a, b, c) \<in> set (others_steps i js g)" "i < length (tanks g)" "alive (tanks g ! i)"
  shows "k = i \<and> length (tanks b) = length (tanks g) \<and> alive (tanks b ! i) \<and> c = bullet_visit i a b"
  using assms
proof (induction js arbitrary: g)
  case Nil
  then show ?case by simp
next
  case (Cons j js)
  let ?g1 = "bullets_loop i (bullets (tanks g ! j)) g"
  show ?case
  proof (cases "alive (tanks g ! j)")
    case False
    with Cons.prems(1) have "(k, a, b, c) \<in> set (others_steps i js g)" by simp
    from Cons.IH[OF this Cons.prems(2,3)] show ?thesis .
  next
    case True
    with Cons.prems(1) consider "(k, a, b, c) \<in> set (bullets_steps i (bullets (tanks g ! j)) g)"
      | "(k, a, b, c) \<in> set (others_steps i js ?g1)" by auto
    then show ?thesis
    proof cases
      case 1
      from bullets_steps_visit[OF 1 Cons.prems(2,3)] show ?thesis .
    next
      case 2
      have k: "i < length (tanks ?g1)" "alive (tanks ?g1 ! i)" "length (tanks ?g1) = length (tanks g)"
        using bullets_loop_keeps[of i "bullets (tanks g ! j)" g] Cons.prems(2,3) by simp_all
      from Cons.IH[OF 2 k(1,2)] k(3) show ?thesis by simp
    qed
  qed
qed

lemma tanks_steps_visit:
  assumes "(k, a, b, c) \<in> set (tanks_steps is g)" "\<forall>i \<in> set is. i < length (tanks g)"
  shows "k < length (tanks g) \<and> length (tanks b) = length (tanks g) \<and> alive (tanks b ! k) \<and>
         c = bullet_visit k a b"
  using assms
proof (induction "is" arbitrary: g)
  case Nil
  then show ?case by simp
next
  case (Cons i "is")
  let ?g1 = "others_loop i [0..<length (tanks g)] g"
  have len: "length (tanks ?g1) = length (tanks g)" using others_loop_keeps[of i _ g] by simp
  show ?case
  proof (cases "alive (tanks g ! i)")
    case False
    with Cons.prems(1) have "(k, a, b, c) \<in> set (tanks_steps is g)" by simp
    from Cons.IH[OF this] Cons.prems(2) show ?thesis by simp
  next
    case True
    with Cons.prems(1) consider "(k, a, b, c) \<in> set (others_steps i [0..<length (tanks g)] g)"
      | "(k, a, b, c) \<in> set (tanks_steps is ?g1)" by auto
    then show ?thesis
    proof cases
      case 1
      from Cons.prems(2) have "i < length (tanks g)" by simp
      from others_steps_visit[OF 1 this True] this show ?thesis by simp
    next
      case 2
      from Cons.IH[OF 2] Cons.prems(2) len show ?thesis by simp
    qed
  qed
qed

lemma check_steps_visit:
  assumes "(i, a, b, c) \<in> set (check_steps g)"
  shows "i < length (tanks g) \<and> length (tanks b) = length (tanks g) \<and> alive (tanks b ! i) \<and>
         c = bullet_visit i a b"
  using tanks_steps_visit[of i a b c "[0..<length (tanks g)]" g] assms
  by (simp add: check_steps_def)

lemma linked_stable:
  assumes "\<And>k x h. P h \<Longrightarrow> P (bullet_visit k x h)"
  shows "linked s vs t \<Longrightarrow> P s \<Longrightarrow> P t"
proof (induction s vs t rule: linked.induct)
  case (1 s t)
  then show ?case by simp
next
  case (2 s i a b c rest t)
  from "2.prems"(1) have l: "b = s" "c = bullet_visit i a b" "linked c rest t" by auto
  from assms[of s i a] "2.prems"(2) l have "P c" by simp
  from "2.IH"[OF l(3) this] show ?case .
qed

lemma linked_after:
  assumes "\<And>k x h. P h \<Longrightarrow> P (bullet_visit k x h)"
  shows "linked s vs t \<Longrightarrow> (i, a, b, c) \<in> set vs \<Longrightarrow> P c \<Longrightarrow> P t"
proof (induction s vs t rule: linked.induct)
  case (1 s t)
  then show ?case by simp
next
  case (2 s i' a' b' c' rest t)
  from "2.prems"(1) have l: "linked c' rest t" by auto
  show ?case
  proof (cases "(i, a, b, c) = (i', a', b', c')")
    case True
    with "2.prems"(3) have "P c'" by simp
    from linked_stable[of P, OF assms l this] show ?thesis .
  next
    case False
    with "2.prems"(2) have "(i, a, b, c) \<in> set rest" by auto
    from "2.IH"[OF l this "2.prems"(3)] show ?thesis .
  qed
qed

lemma hit_fields:
  assumes "i < length (tanks h)"
  shows "spawn_point (tanks (hit k x h) ! i) = spawn_point (tanks h ! i)"
    and "deaths (tanks h ! i) \<le> deaths (tanks (hit k x h) ! i)"
    and "k \<noteq> i \<Longrightarrow> tank_x (tanks (hit k x h) ! i) = tank_x (tanks h ! i) \<and>
           tank_y (tanks (hit k x h) ! i) = tank_y (tanks h ! i) \<and>
           bullets (tanks (hit k x h) ! i) = bullets (tanks h ! i)"
    and "k = i \<Longrightarrow> tank_x (tanks (hit k x h) ! i) = fst (spawn_point (tanks h ! i)) \<and>
           tank_y (tanks (hit k x h) ! i) = snd (spawn_point (tanks h ! i)) \<and>
           bullets (tanks (hit k x h) ! i) = []"
    and "\<not> active (bullet_store h a) \<Longrightarrow> \<not> active (bullet_store (hit k x h) a)"
  using assms
  by (cases "bullet_owner (bullet_store h x) = k"; cases "k = i";
      cases "bullet_owner (bullet_store h x) = i";
      simp add: hit_def Let_def respawn_def nth_list_update)+

lemma struck_visit: "struck i a sp d h \<Longrightarrow> struck i a sp d (bullet_visit k x h)"
proof (cases "active (bullet_store h x) \<and>
    colliderect (get_rect (tanks h ! k)) (bullet_rect (bullet_store h x))")
  case False
  assume "struck i a sp d h"
  from False have "bullet_visit k x h = h" by (auto simp: bullet_visit_def)
  with \<open>struck i a sp d h\<close> show ?thesis by simp
next
  case True
  assume s: "struck i a sp d h"
  then have i: "i < length (tanks h)" by (simp add: struck_def)
  from True have v: "bullet_visit k x h = hit k x h" by (simp add: bullet_visit_def)
  from s have f: "\<not> active (bullet_store h a)" "spawn_point (tanks h ! i) = sp"
    "tank_x (tanks h ! i) = fst sp" "tank_y (tanks h ! i) = snd sp" "bullets (tanks h ! i) = []"
    "d \<le> deaths (tanks h ! i)"
    by (auto simp: struck_def)
  note hf = hit_fields[where i = i and h = h and k = k and x = x, OF i]
  have 1: "\<not> active (bullet_store (hit k x h) a)" using hf(5)[of a] f(1) by simp
  have 2: "spawn_point (tanks (hit k x h) ! i) = sp" using hf(1) f(2) by simp
  have 3: "d \<le> deaths (tanks (hit k x h) ! i)" using hf(2) f(6) by simp
  have 4: "tank_x (tanks (hit k x h) ! i) = fst sp \<and> tank_y (tanks (hit k x h) ! i) = snd sp \<and>
      bullets (tanks (hit k x h) ! i) = []"
  proof (cases "k = i")
    case True
    from hf(4)[OF True] f(2) show ?thesis by simp
  next
    case False
    from hf(3)[OF False] f(3,4,5) show ?thesis by simp
  qed
  from 1 2 3 4 i show ?thesis unfolding v struck_def by (simp add: hit_frame)
qed

text \<open>
  Every tank of a game that \<open>start_game\<close> builds is alive, and the collision check keeps
  every tank alive.
\<close>

lemma start_game_alive:
  assumes "start_game nt tk m g = Inr g'"
  shows "length (tanks g') = 2 \<and> (\<forall>t \<in> set (tanks g'). alive t)"
  using assms
  by (auto simp: start_game_def and_then_def Let_def Tank_init_def split: sum.splits if_splits)

lemma hit_alive:
  assumes "j < length (tanks h)" "alive (tanks h ! j)"
  shows "alive (tanks (hit k x h) ! j)"
  using assms
  by (cases "bullet_owner (bullet_store h x) = k"; cases "k = j";
      cases "bullet_owner (bullet_store h x) = j";
      simp add: hit_def Let_def respawn_def nth_list_update)

lemma bullet_visit_all_alive: "all_alive g \<Longrightarrow> all_alive (bullet_visit i a g)"
  by (simp add: all_alive_def bullet_visit_def hit_frame hit_alive)

lemma check_collisions_all_alive: "all_alive g \<Longrightarrow> all_alive (check_collisions g)"
  using linked_stable[of all_alive, OF bullet_visit_all_alive check_steps_linked] by blast


text \<open>
  C4, as stated, fails. Two living tanks 40 units apart face each other and have both just
  fired, so the bullet of each is active and overlaps the footprint of the other. The
  collision check first tests the first tank against the bullet of the second: the first
  tank is hit and its respawn empties its bullet list. When the second tank is tested, the
  bullet of the first tank is in no list any more: it stays active, and the second tank
  keeps its place, its death counter and its bullet list, and the first tank gets no kill.
\<close>

theorem crossfire_hit_missed:
  "active (bullet_store crossfire_game 0) \<and> 0 \<in> set (bullets (tanks crossfire_game ! 0)) \<and>
   alive (tanks crossfire_game ! 0) \<and> alive (tanks crossfire_game ! 1) \<and>
   colliderect (get_rect (tanks crossfire_game ! 1)) (bullet_rect (bullet_store crossfire_game 0)) \<and>
   active (bullet_store (check_collisions crossfire_game) 0) \<and>
   map (\<lambda>t. (tank_x t, tank_y t, kills t, deaths t, suicides t, bullets t))
     (tanks (check_collisions crossfire_game))
     = [(175, 112, 0, 1, 0, []), (340, 200, 1, 0, 0, [1])]"
  by (simp add: check_collisions_def crossfire_game_def upt2 bullet_visit_def hit_def Let_def
      respawn_def geom_eval)

text \<open>
  C4, amended. The collision check of a tick is a chain of visits that leads from the game
  before the check to the game after it. For every visit of that chain that finds the
  bullet active and its box overlapping the footprint of the tank visited, the tank is
  alive and, at the end of that visit: the bullet is inactive, the death counter of the
  tank is one higher, the kill counter of the owner is one higher and the suicide counter
  of the tank unchanged when the owner is another tank, the suicide counter of the tank is
  one higher and its kill counter unchanged when it owns the bullet, the tank is at its
  spawn point and its bullet list is empty. And at the end of the collision check of that
  tick the bullet is still inactive, the tank is at that spawn point with an empty bullet
  list, and its death counter is at least one higher than before the visit.
\<close>

theorem detected_hit_outcome:
  assumes "(i, a, b, c) \<in> set (check_steps g)"
    and "active (bullet_store b a)"
    and "colliderect (get_rect (tanks b ! i)) (bullet_rect (bullet_store b a))"
    and "bullet_owner (bullet_store b a) < length (tanks g)"
  shows "linked g (check_steps g) (check_collisions g) \<and>
         i < length (tanks g) \<and> alive (tanks b ! i) \<and> c = bullet_visit i a b \<and>
         \<not> active (bullet_store c a) \<and>
         deaths (tanks c ! i) = deaths (tanks b ! i) + 1 \<and>
         (bullet_owner (bullet_store b a) \<noteq> i \<longrightarrow>
            kills (tanks c ! bullet_owner (bullet_store b a))
              = kills (tanks b ! bullet_owner (bullet_store b a)) + 1 \<and>
            suicides (tanks c ! i) = suicides (tanks b ! i)) \<and>
         (bullet_owner (bullet_store b a) = i \<longrightarrow>
            suicides (tanks c ! i) = suicides (tanks b ! i) + 1 \<and>
            kills (tanks c ! i) = kills (tanks b ! i)) \<and>
         (tank_x (tanks c ! i), tank_y (tanks c ! i)) = spawn_point (tanks b ! i) \<and>
         bullets (tanks c ! i) = [] \<and>
         \<not> active (bullet_store (check_collisions g) a) \<and>
         deaths (tanks b ! i) + 1 \<le> deaths (tanks (check_collisions g) ! i) \<and>
         (tank_x (tanks (check_collisions g) ! i), tank_y (tanks (check_collisions g) ! i))
            = spawn_point (tanks b ! i) \<and>
         bullets (tanks (check_collisions g) ! i) = []"
proof -
  from check_steps_visit[OF assms(1)] have v: "i < length (tanks g)" "length (tanks b) = length (tanks g)"
    "alive (tanks b ! i)" "c = bullet_visit i a b" by simp_all
  have i: "i < length (tanks b)" and ow: "bullet_owner (bullet_store b a) < length (tanks b)"
    using v assms(4) by simp_all
  note o = bullet_visit_outcome[OF i ow assms(2,3)]
  have sp: "spawn_point (tanks c ! i) = spawn_point (tanks b ! i)"
    using assms(2,3) i by (simp add: v(4) bullet_visit_def hit_fields(1))
  have "struck i a (spawn_point (tanks b ! i)) (deaths (tanks b ! i) + 1) c"
    using o sp i unfolding struck_def v(4) by (simp add: bullet_visit_frame prod_eq_iff)
  from linked_after[of "struck i a (spawn_point (tanks b ! i)) (deaths (tanks b ! i) + 1)",
      OF struck_visit check_steps_linked assms(1) this]
  have e: "\<not> active (bullet_store (check_collisions g) a) \<and>
         deaths (tanks b ! i) + 1 \<le> deaths (tanks (check_collisions g) ! i) \<and>
         (tank_x (tanks (check_collisions g) ! i), tank_y (tanks (check_collisions g) ! i))
            = spawn_point (tanks b ! i) \<and>
         bullets (tanks (check_collisions g) ! i) = []"
    by (simp add: struck_def prod_eq_iff)
  from o v check_steps_linked[of g] e show ?thesis by simp
qed

theorem detected_hit_outcome_witness:
  "(0, 0, demo_game, bullet_visit 0 0 demo_game) \<in> set (check_steps demo_game) \<and>
   \<not> active (bullet_store (bullet_visit 0 0 demo_game) 0) \<and>
   deaths (tanks (bullet_visit 0 0 demo_game) ! 0) = 1 \<and>
   kills (tanks (bullet_visit 0 0 demo_game) ! 1) = 1 \<and>
   (0, 0, selfhit_game, bullet_visit 0 0 selfhit_game) \<in> set (check_steps selfhit_game) \<and>
   suicides (tanks (bullet_visit 0 0 selfhit_game) ! 0) = 1 \<and>
   kills (tanks (bullet_visit 0 0 selfhit_game) ! 0) = 0 \<and>
   map (\<lambda>t. (tank_x t, tank_y t, kills t, deaths t, suicides t, bullets t)) (tanks (check_collisions demo_game))
     = [(175, 112, 0, 1, 0, []), (1715, 877, 1, 0, 0, [0])] \<and>
   map (\<lambda>t. (tank_x t, tank_y t, kills t, deaths t, suicides t, bullets t)) (tanks (check_collisions selfhit_game))
     = [(175, 112, 0, 1, 1, []), (1715, 877, 0, 0, 0, [])]"
proof -
  have f: "length (tanks demo_game) = 2" "alive (tanks demo_game ! 0)" "bullets (tanks demo_game ! 0) = []"
    "alive (tanks demo_game ! Suc 0)" "bullets (tanks demo_game ! Suc 0) = [0]"
    by (simp_all add: demo_game_def Tank_init_def)
  have m: "(0, 0, demo_game, bullet_visit 0 0 demo_game) \<in> set (check_steps demo_game)"
    by (simp add: check_steps_def f upt2)
  have fs: "length (tanks selfhit_game) = 2" "alive (tanks selfhit_game ! 0)"
    "bullets (tanks selfhit_game ! 0) = [0, 1]"
    by (simp_all add: selfhit_game_def Tank_init_def)
  have ms: "(0, 0, selfhit_game, bullet_visit 0 0 selfhit_game) \<in> set (check_steps selfhit_game)"
    by (simp add: check_steps_def fs upt2)
  have a: "active (bullet_store demo_game 0)"
    "colliderect (get_rect (tanks demo_game ! 0)) (bullet_rect (bullet_store demo_game 0))"
    "bullet_owner (bullet_store demo_game 0) < length (tanks demo_game)"
    by (simp_all add: demo_game_def geom_eval)
  have b: "active (bullet_store selfhit_game 0)"
    "colliderect (get_rect (tanks selfhit_game ! 0)) (bullet_rect (bullet_store selfhit_game 0))"
    "bullet_owner (bullet_store selfhit_game 0) < length (tanks selfhit_game)"
    by (simp_all add: selfhit_game_def geom_eval)
  have c: "map (\<lambda>t. (tank_x t, tank_y t, kills t, deaths t, suicides t, bullets t)) (tanks (check_collisions demo_game))
     = [(175, 112, 0, 1, 0, []), (1715, 877, 1, 0, 0, [0])]"
    by (simp add: check_collisions_def demo_game_def upt2 bullet_visit_def hit_def Let_def respawn_def geom_eval)
  have d: "map (\<lambda>t. (tank_x t, tank_y t, kills t, deaths t, suicides t, bullets t)) (tanks (check_collisions selfhit_game))
     = [(175, 112, 0, 1, 1, []), (1715, 877, 0, 0, 0, [])]"
    by (simp add: check_collisions_def selfhit_game_def upt2 bullet_visit_def hit_def Let_def respawn_def geom_eval)
  have e: "bullet_owner (bullet_store demo_game 0) = 1" "deaths (tanks demo_game ! 0) = 0"
    "kills (tanks demo_game ! 1) = 0"
    "bullet_owner (bullet_store selfhit_game 0) = 0" "suicides (tanks selfhit_game ! 0) = 0"
    "kills (tanks selfhit_game ! 0) = 0"
    by (simp_all add: demo_game_def selfhit_game_def Tank_init_def Bullet_init_def)
  show ?thesis
    using detected_hit_outcome [OF m a] detected_hit_outcome [OF ms b] m ms c d e by simp
qed


section \<open>The end of the match\<close>

lemma bullets_loop_frame:
  "state (bullets_loop i as g) = state g \<and> match_start (bullets_loop i as g) = match_start g \<and>
   match_end (bullets_loop i as g) = match_end g"
  by (induction as arbitrary: g) (simp_all add: bullet_visit_frame)

lemma others_loop_frame:
  "state (others_loop i js g) = state g \<and> match_start (others_loop i js g) = match_start g \<and>
   match_end (others_loop i js g) = match_end g"
  by (induction js arbitrary: g) (simp_all add: bullets_loop_frame)

lemma tanks_loop_frame:
  "state (tanks_loop is g) = state g \<and> match_start (tanks_loop is g) = match_start g \<and>
   match_end (tanks_loop is g) = match_end g"
  by (induction "is" arbitrary: g) (simp_all add: others_loop_frame)

lemma check_collisions_frame:
  "state (check_collisions g) = state g" "match_start (check_collisions g) = match_start g"
  "match_end (check_collisions g) = match_end g"
  by (simp_all add: check_collisions_def tanks_loop_frame)

lemma start_game_Inr:
  "start_game nt tk m g = Inr g' \<Longrightarrow>
     state g' = playing \<and> match_start g' = Some tk \<and> match_end g' = Some (tk + MATCH_SECONDS * 1000)"
  by (auto simp: start_game_def and_then_def Let_def split: sum.splits if_splits)

lemma start_game_timer: "start_game nt tk m g = Inr g' \<Longrightarrow> timer_ok g'"
  by (drule start_game_Inr) (simp add: timer_ok_def)

lemma on_keydown_timer: "timer_ok g \<Longrightarrow> on_keydown env k g = Inr g' \<Longrightarrow> timer_ok g'"
  by (auto simp: on_keydown_def split: if_splits dest: start_game_timer) (auto simp: timer_ok_def)

lemma on_mouse_timer: "timer_ok g \<Longrightarrow> on_mouse env button px py g = Inr g' \<Longrightarrow> timer_ok g'"
  by (auto simp: on_mouse_def split: if_splits dest: start_game_timer)

lemma on_resize_fields:
  "state (on_resize w h g) = state g" "match_start (on_resize w h g) = match_start g"
  "match_end (on_resize w h g) = match_end g" "tanks (on_resize w h g) = tanks g"
  "bullet_store (on_resize w h g) = bullet_store g"
  by (simp_all add: on_resize_def Let_def split: sum.splits)

lemma on_resize_timer: "timer_ok g \<Longrightarrow> timer_ok (on_resize w h g)"
  by (simp add: timer_ok_def on_resize_fields split: option.splits)

lemma handle_event_timer: "timer_ok g \<Longrightarrow> handle_event env ev g = Inr g' \<Longrightarrow> timer_ok g'"
proof (cases ev)
  case QUIT
  assume "timer_ok g" "handle_event env ev g = Inr g'"
  with QUIT show ?thesis by (auto simp: handle_event_def and_then_def timer_ok_def split: option.splits)
next
  case (KEYDOWN k)
  assume "timer_ok g" "handle_event env ev g = Inr g'"
  with KEYDOWN show ?thesis
    by (auto simp: handle_event_def and_then_def split: sum.splits dest: on_keydown_timer)
next
  case (MOUSEBUTTONDOWN b px py)
  assume "timer_ok g" "handle_event env ev g = Inr g'"
  with MOUSEBUTTONDOWN show ?thesis
    by (auto simp: handle_event_def and_then_def split: sum.splits dest: on_mouse_timer)
next
  case (VIDEORESIZE w h)
  assume "timer_ok g" "handle_event env ev g = Inr g'"
  with VIDEORESIZE show ?thesis
    by (auto simp: handle_event_def and_then_def on_resize_timer)
next
  case OTHER_EVENT
  assume "timer_ok g" "handle_event env ev g = Inr g'"
  with OTHER_EVENT show ?thesis by (auto simp: handle_event_def and_then_def)
qed

lemma handle_events_timer: "timer_ok g \<Longrightarrow> handle_events evs g = Inr g' \<Longrightarrow> timer_ok g'"
proof (induction evs arbitrary: g)
  case Nil
  then show ?case by simp
next
  case (Cons p evs)
  obtain env ev where p: "p = (env, ev)" by (cases p)
  with Cons.prems obtain g1 where g1: "handle_event env ev g = Inr g1" "handle_events evs g1 = Inr g'"
    by (auto simp: and_then_def split: sum.splits)
  from handle_event_timer[OF Cons.prems(1) g1(1)] g1(2) show ?case by (rule Cons.IH)
qed

lemma frame_playing:
  assumes "state g = playing" "timer_ok g" "frame play now buttons g = Inr g'"
  shows "timer_ok g' \<and> match_start g' = match_start g \<and>
         (state g' = game_over \<or> state g' = playing) \<and>
         (state g' = game_over \<longleftrightarrow> (\<exists>s. match_start g = Some s \<and> s + 90000 \<le> now))"
proof -
  from assms(1,3) obtain ts bs where pl: "play g = Inr (ts, bs)"
    by (auto simp: frame_def and_then_def split: sum.splits)
  let ?g1 = "check_collisions (g\<lparr>tanks := ts, bullet_store := bs\<rparr>)"
  from assms(1,2) obtain s where s: "match_start g = Some s" "match_end g = Some (s + 90000)"
    by (auto simp: timer_ok_def MATCH_SECONDS_def split: option.splits)
  have f: "state ?g1 = playing" "match_start ?g1 = Some s" "match_end ?g1 = Some (s + 90000)"
    using assms(1) s by (simp_all add: check_collisions_frame)
  have g': "g' = (if s + 90000 \<le> now then ?g1\<lparr>state := game_over\<rparr> else ?g1)"
    using assms(1,3) pl f by (simp add: frame_def and_then_def Let_def split: if_splits)
  show ?thesis
    using f s by (simp add: g' timer_ok_def MATCH_SECONDS_def)
qed

lemma frame_not_playing:
  assumes "state g \<noteq> playing"
  shows "\<exists>g'. frame play now buttons g = Inr g' \<and> state g' = state g \<and>
              tanks g' = tanks g \<and> bullet_store g' = bullet_store g \<and> timer_ok g'"
  using assms by (auto simp: frame_def draw_menu_def timer_ok_def)

lemma hit_running: "running (hit i a g) = running g"
  by (simp add: hit_def Let_def)

lemma bullets_loop_running: "running (bullets_loop i as g) = running g"
  by (induction as arbitrary: g) (simp_all add: bullet_visit_def hit_running)

lemma others_loop_running: "running (others_loop i js g) = running g"
  by (induction js arbitrary: g) (simp_all add: bullets_loop_running)

lemma tanks_loop_running: "running (tanks_loop is g) = running g"
  by (induction "is" arbitrary: g) (simp_all add: others_loop_running)

lemma check_collisions_running: "running (check_collisions g) = running g"
  by (simp add: check_collisions_def tanks_loop_running)

lemma on_keydown_back:
  "on_keydown env k g = Inr g' \<Longrightarrow> state g' = game_over \<Longrightarrow> state g = game_over"
  by (auto simp: on_keydown_def split: if_splits dest!: start_game_Inr)

lemma on_mouse_back:
  "on_mouse env button px py g = Inr g' \<Longrightarrow> state g' = game_over \<Longrightarrow> state g = game_over"
  by (auto simp: on_mouse_def split: if_splits dest!: start_game_Inr)

lemma handle_event_back:
  assumes "handle_event env ev g = Inr g'" "state g' = game_over"
  shows "state g = game_over"
proof (cases ev)
  case QUIT
  with assms show ?thesis by (auto simp: handle_event_def and_then_def)
next
  case (KEYDOWN k)
  with assms show ?thesis
    by (auto simp: handle_event_def and_then_def split: sum.splits dest: on_keydown_back)
next
  case (MOUSEBUTTONDOWN b px py)
  with assms show ?thesis
    by (auto simp: handle_event_def and_then_def split: sum.splits dest: on_mouse_back)
next
  case (VIDEORESIZE w h)
  with assms show ?thesis by (auto simp: handle_event_def and_then_def on_resize_fields)
next
  case OTHER_EVENT
  with assms show ?thesis by (auto simp: handle_event_def and_then_def)
qed

lemma handle_events_back:
  "handle_events evs g = Inr g' \<Longrightarrow> state g' = game_over \<Longrightarrow> state g = game_over"
proof (induction evs arbitrary: g)
  case Nil
  then show ?case by simp
next
  case (Cons p evs)
  obtain env ev where p: "p = (env, ev)" by (cases p)
  with Cons.prems obtain g1 where g1: "handle_event env ev g = Inr g1" "handle_events evs g1 = Inr g'"
    by (auto simp: and_then_def split: sum.splits)
  from Cons.IH[OF g1(2) Cons.prems(2)] have "state g1 = game_over" .
  with g1(1) show ?case by (rule handle_event_back)
qed

lemma on_resize_running: "running (on_resize w h g) = running g"
  by (simp add: on_resize_def Let_def split: sum.splits)

lemma handle_event_undisturbed:
  assumes "state g = playing \<or> state g = game_over" "undisturbed ev"
  shows "\<exists>g'. handle_event env ev g = Inr g' \<and> state g' = state g \<and> running g' = running g \<and>
              match_start g' = match_start g \<and> match_end g' = match_end g \<and>
              tanks g' = tanks g \<and> bullet_store g' = bullet_store g"
proof (cases ev)
  case (KEYDOWN k)
  with assms show ?thesis
    by (auto simp: handle_event_def and_then_def on_keydown_def undisturbed_def)
next
  case (MOUSEBUTTONDOWN b px py)
  with assms show ?thesis by (auto simp: handle_event_def and_then_def on_mouse_def)
next
  case (VIDEORESIZE w h)
  with assms show ?thesis
    by (auto simp: handle_event_def and_then_def on_resize_fields on_resize_running)
qed (use assms in \<open>auto simp: handle_event_def and_then_def undisturbed_def\<close>)

lemma handle_events_undisturbed:
  assumes "state g = playing \<or> state g = game_over" "list_all (\<lambda>p. undisturbed (snd p)) evs"
  shows "\<exists>g'. handle_events evs g = Inr g' \<and> state g' = state g \<and> running g' = running g \<and>
              match_start g' = match_start g \<and> match_end g' = match_end g \<and>
              tanks g' = tanks g \<and> bullet_store g' = bullet_store g"
  using assms
proof (induction evs arbitrary: g)
  case Nil
  then show ?case by simp
next
  case (Cons p evs)
  obtain env ev where p: "p = (env, ev)" by (cases p)
  with Cons.prems have q: "undisturbed ev" "list_all (\<lambda>p. undisturbed (snd p)) evs" by auto
  from handle_event_undisturbed[OF Cons.prems(1) q(1), of env] obtain g1 where
    g1: "handle_event env ev g = Inr g1" "state g1 = state g" "running g1 = running g"
      "match_start g1 = match_start g" "match_end g1 = match_end g"
      "tanks g1 = tanks g" "bullet_store g1 = bullet_store g" by blast
  from Cons.prems(1) g1(2) have "state g1 = playing \<or> state g1 = game_over" by simp
  from Cons.IH[OF this q(2)] obtain g' where
    "handle_events evs g1 = Inr g'" "state g' = state g1" "running g' = running g1"
      "match_start g' = match_start g1" "match_end g' = match_end g1"
      "tanks g' = tanks g1" "bullet_store g' = bullet_store g1" by blast
  with g1 p show ?case by (simp add: and_then_def)
qed

lemma frame_playing_fields:
  assumes "state g = playing" "match_start g = Some s" "match_end g = Some (s + 90000)"
    and "frame play now buttons g = Inr g'"
  shows "running g' = running g \<and> match_start g' = Some s \<and> match_end g' = Some (s + 90000) \<and>
         state g' = (if s + 90000 \<le> now then game_over else playing)"
proof -
  from assms(1,4) obtain ts bs where pl: "play g = Inr (ts, bs)"
    by (auto simp: frame_def and_then_def split: sum.splits)
  let ?g1 = "check_collisions (g\<lparr>tanks := ts, bullet_store := bs\<rparr>)"
  have f: "state ?g1 = playing" "match_start ?g1 = Some s" "match_end ?g1 = Some (s + 90000)"
    "running ?g1 = running g"
    using assms(1-3) by (simp_all add: check_collisions_frame check_collisions_running)
  have g': "g' = (if s + 90000 \<le> now then ?g1\<lparr>state := game_over\<rparr> else ?g1)"
    using assms(1,4) pl f by (simp add: frame_def and_then_def Let_def split: if_splits)
  show ?thesis using f by (simp add: g')
qed

lemma frame_game_over: "state g = game_over \<Longrightarrow> frame play now buttons g = Inr g"
  by (simp add: frame_def)

lemma round_from_playing:
  assumes "state g = playing" "running g" "match_start g = Some s" "match_end g = Some (s + 90000)"
    and "calm r" and "run_round r g = Inr g'"
  shows "running g' \<and> match_start g' = Some s \<and> match_end g' = Some (s + 90000) \<and>
         state g' = (if s + 90000 \<le> r_now r then game_over else playing)"
proof -
  from handle_events_undisturbed[of g "r_events r"] assms(1,5) obtain g1 where
    g1: "handle_events (r_events r) g = Inr g1" "state g1 = state g" "running g1 = running g"
      "match_start g1 = match_start g" "match_end g1 = match_end g"
    by (auto simp: calm_def)
  from assms(6) g1(1) have fr: "frame (r_play r) (r_now r) (r_buttons r) g1 = Inr g'"
    by (simp add: run_round_def run_iteration_def and_then_def)
  from frame_playing_fields[OF _ _ _ fr, of s] g1 assms(1-4) show ?thesis by simp
qed


lemma handle_event_quiet:
  assumes "state g = game_over" "quiet ev"
  shows "\<exists>g'. handle_event env ev g = Inr g' \<and> state g' = game_over \<and>
              match_start g' = match_start g \<and>
              tanks g' = tanks g \<and> bullet_store g' = bullet_store g"
proof (cases ev)
  case (KEYDOWN k)
  with assms show ?thesis
    by (auto simp: handle_event_def and_then_def on_keydown_def quiet_def)
next
  case (MOUSEBUTTONDOWN b px py)
  with assms show ?thesis by (auto simp: handle_event_def and_then_def on_mouse_def)
next
  case (VIDEORESIZE w h)
  with assms show ?thesis by (auto simp: handle_event_def and_then_def on_resize_fields)
qed (use assms in \<open>auto simp: handle_event_def and_then_def\<close>)

lemma handle_events_quiet:
  assumes "state g = game_over" "list_all (\<lambda>p. quiet (snd p)) evs"
  shows "\<exists>g'. handle_events evs g = Inr g' \<and> state g' = game_over \<and>
              match_start g' = match_start g \<and>
              tanks g' = tanks g \<and> bullet_store g' = bullet_store g"
  using assms
proof (induction evs arbitrary: g)
  case Nil
  then show ?case by simp
next
  case (Cons p evs)
  obtain env ev where p: "p = (env, ev)" by (cases p)
  with Cons.prems have q: "quiet ev" "list_all (\<lambda>p. quiet (snd p)) evs" by auto
  from handle_event_quiet[OF Cons.prems(1) q(1), of env] obtain g1 where
    g1: "handle_event env ev g = Inr g1" "state g1 = game_over" "match_start g1 = match_start g"
      "tanks g1 = tanks g" "bullet_store g1 = bullet_store g" by blast
  from Cons.IH[OF g1(2) q(2)] obtain g' where
    "handle_events evs g1 = Inr g'" "state g' = game_over" "match_start g' = match_start g1"
      "tanks g' = tanks g1" "bullet_store g' = bullet_store g1" by blast
  with g1 p show ?case by (simp add: and_then_def)
qed

lemma calm_settled: "calm r \<Longrightarrow> settled r"
  unfolding calm_def settled_def list_all_iff by (auto simp: undisturbed_def quiet_def)

lemma round_from_game_over:
  assumes "state g = game_over" "settled r"
  shows "\<exists>g'. run_round r g = Inr g' \<and> state g' = game_over \<and>
              match_start g' = match_start g \<and> tanks g' = tanks g \<and> bullet_store g' = bullet_store g"
proof -
  from handle_events_quiet[of g "r_events r"] assms obtain g1 where
    g1: "handle_events (r_events r) g = Inr g1" "state g1 = game_over"
      "match_start g1 = match_start g" "tanks g1 = tanks g" "bullet_store g1 = bullet_store g"
    by (auto simp: settled_def)
  then have "run_round r g = Inr g1"
    by (simp add: run_round_def run_iteration_def and_then_def frame_game_over)
  with g1 show ?thesis by simp
qed

lemma rounds_from_game_over:
  assumes "state g = game_over" "list_all settled rs"
  shows "\<exists>g'. run_rounds rs g = Inr g' \<and> state g' = game_over \<and>
              match_start g' = match_start g \<and> tanks g' = tanks g \<and> bullet_store g' = bullet_store g"
  using assms
proof (induction rs arbitrary: g)
  case Nil
  then show ?case by simp
next
  case (Cons r rs)
  show ?case
  proof (cases "running g")
    case False
    with Cons.prems show ?thesis by simp
  next
    case True
    from Cons.prems have c: "settled r" "list_all settled rs" by simp_all
    from round_from_game_over[OF Cons.prems(1) c(1)] obtain g1 where
      g1: "run_round r g = Inr g1" "state g1 = game_over" "match_start g1 = match_start g"
        "tanks g1 = tanks g" "bullet_store g1 = bullet_store g" by blast
    from Cons.IH[OF g1(2) c(2)] obtain g' where
      "run_rounds rs g1 = Inr g'" "state g' = game_over" "match_start g' = match_start g1"
        "tanks g' = tanks g1" "bullet_store g' = bullet_store g1" by blast
    with g1 True show ?thesis by (simp add: and_then_def)
  qed
qed

lemma rounds_from_playing:
  assumes "state g = playing" "running g" "match_start g = Some s" "match_end g = Some (s + 90000)"
    and "list_all calm rs" and "run_rounds rs g = Inr g'"
  shows "match_start g' = Some s \<and>
         state g' = (if \<exists>r \<in> set rs. s + 90000 \<le> r_now r then game_over else playing)"
  using assms
proof (induction rs arbitrary: g)
  case Nil
  then show ?case by simp
next
  case (Cons r rs)
  from Cons.prems(5) have c: "calm r" "list_all calm rs" by simp_all
  from Cons.prems(2,6) obtain g1 where g1: "run_round r g = Inr g1" "run_rounds rs g1 = Inr g'"
    by (auto simp: and_then_def split: sum.splits)
  from round_from_playing[OF Cons.prems(1-4) c(1) g1(1)] have
    f: "running g1" "match_start g1 = Some s" "match_end g1 = Some (s + 90000)"
      "state g1 = (if s + 90000 \<le> r_now r then game_over else playing)" by simp_all
  show ?case
  proof (cases "s + 90000 \<le> r_now r")
    case True
    with f have "state g1 = game_over" by simp
    moreover from c(2) have "list_all settled rs" by (simp add: list_all_iff calm_settled)
    ultimately have "state g' = game_over" "match_start g' = Some s"
      using rounds_from_game_over[of g1 rs] g1(2) f(2) by auto
    with True show ?thesis by auto
  next
    case False
    with f have "state g1 = playing" by simp
    from Cons.IH[OF this f(1-3) c(2) g1(2)] False show ?thesis by auto
  qed
qed

lemma handle_event_start:
  assumes "handle_event env ev g = Inr g'"
  shows "match_start g' = match_start g \<or> match_start g' = Some (snd env)"
proof (cases ev)
  case QUIT
  with assms show ?thesis by (auto simp: handle_event_def and_then_def)
next
  case (KEYDOWN k)
  with assms show ?thesis
    by (auto simp: handle_event_def and_then_def on_keydown_def split: if_splits sum.splits
        dest!: start_game_Inr)
next
  case (MOUSEBUTTONDOWN b px py)
  with assms show ?thesis
    by (auto simp: handle_event_def and_then_def on_mouse_def split: if_splits sum.splits
        dest!: start_game_Inr)
next
  case (VIDEORESIZE w h)
  with assms show ?thesis by (auto simp: handle_event_def and_then_def on_resize_fields)
next
  case OTHER_EVENT
  with assms show ?thesis by (auto simp: handle_event_def and_then_def)
qed

lemma handle_events_start:
  "handle_events evs g = Inr g' \<Longrightarrow>
     match_start g' = match_start g \<or> (\<exists>p \<in> set evs. match_start g' = Some (snd (fst p)))"
proof (induction evs arbitrary: g)
  case Nil
  then show ?case by simp
next
  case (Cons p evs)
  obtain env ev where p: "p = (env, ev)" by (cases p)
  with Cons.prems obtain g1 where g1: "handle_event env ev g = Inr g1" "handle_events evs g1 = Inr g'"
    by (auto simp: and_then_def split: sum.splits)
  from handle_event_start[OF g1(1)] Cons.IH[OF g1(2)] p show ?case by auto
qed

lemma round_timer:
  assumes "timer_ok g" "run_round r g = Inr g'"
  shows "timer_ok g'"
proof -
  from assms(2) obtain g1 where g1: "handle_events (r_events r) g = Inr g1"
    "frame (r_play r) (r_now r) (r_buttons r) g1 = Inr g'"
    by (auto simp: run_round_def run_iteration_def and_then_def split: sum.splits)
  have t1: "timer_ok g1" using assms(1) g1(1) by (rule handle_events_timer)
  show ?thesis
  proof (cases "state g1 = playing")
    case True
    from frame_playing[OF True t1 g1(2)] show ?thesis by simp
  next
    case False
    from frame_not_playing[OF False, of "r_play r" "r_now r" "r_buttons r"] g1(2)
    show ?thesis by auto
  qed
qed

lemma round_never_early:
  assumes "timer_ok g" "state g \<noteq> game_over" "run_round r g = Inr g'" "state g' = game_over"
  shows "\<exists>s. match_start g' = Some s \<and> s + 90000 \<le> r_now r \<and>
             (match_start g = Some s \<or> (\<exists>p \<in> set (r_events r). snd (fst p) = s))"
proof -
  from assms(3) obtain g1 where g1: "handle_events (r_events r) g = Inr g1"
    "frame (r_play r) (r_now r) (r_buttons r) g1 = Inr g'"
    by (auto simp: run_round_def run_iteration_def and_then_def split: sum.splits)
  have t1: "timer_ok g1" using assms(1) g1(1) by (rule handle_events_timer)
  have n1: "state g1 \<noteq> game_over" using handle_events_back[OF g1(1)] assms(2) by blast
  show ?thesis
  proof (cases "state g1 = playing")
    case True
    from frame_playing[OF True t1 g1(2)] assms(4) obtain s where
      s: "match_start g' = Some s" "match_start g1 = Some s" "s + 90000 \<le> r_now r" by auto
    from handle_events_start[OF g1(1)] s(2)
    have "match_start g = Some s \<or> (\<exists>p \<in> set (r_events r). snd (fst p) = s)" by auto
    with s show ?thesis by simp
  next
    case False
    from frame_not_playing[OF False, of "r_play r" "r_now r" "r_buttons r"] g1(2) n1 assms(4)
    show ?thesis by auto
  qed
qed

lemma round_in_play:
  assumes "timer_ok g" "run_round r g = Inr g'" "state g' = playing"
  shows "\<exists>s. match_start g' = Some s \<and> r_now r < s + 90000"
proof -
  from assms(2) obtain g1 where g1: "handle_events (r_events r) g = Inr g1"
    "frame (r_play r) (r_now r) (r_buttons r) g1 = Inr g'"
    by (auto simp: run_round_def run_iteration_def and_then_def split: sum.splits)
  have t1: "timer_ok g1" using assms(1) g1(1) by (rule handle_events_timer)
  show ?thesis
  proof (cases "state g1 = playing")
    case True
    from True t1 obtain s where s: "match_start g1 = Some s"
      by (auto simp: timer_ok_def split: option.splits)
    from frame_playing[OF True t1 g1(2)] assms(3) s show ?thesis by auto
  next
    case False
    from frame_not_playing[OF False, of "r_play r" "r_now r" "r_buttons r"] g1(2) assms(3) False
    show ?thesis by auto
  qed
qed

lemma run_round_idle:
  "run_round (idle_round t) g =
     (if state g = playing then
        Inr ((if t \<ge> (case match_end g of None \<Rightarrow> 0 | Some e \<Rightarrow> e)
              then (check_collisions g)\<lparr>state := game_over\<rparr> else check_collisions g))
      else if state g = menu then Inr (draw_menu (None, None) g) else Inr g)"
  by (simp add: run_round_def run_iteration_def idle_round_def handle_event_def and_then_def
      frame_def idle_play_def Let_def check_collisions_frame)

lemma run_rounds_idle:
  "list_all (\<lambda>r. \<exists>t. r = idle_round t) rs \<Longrightarrow> \<exists>h. run_rounds rs g = Inr h"
proof (induction rs arbitrary: g)
  case Nil
  then show ?case by simp
next
  case (Cons r rs)
  then obtain t where r: "r = idle_round t" by auto
  have "\<exists>g1. run_round r g = Inr g1" unfolding r run_round_idle by simp
  then obtain g1 where "run_round r g = Inr g1" ..
  with Cons show ?case by (cases "running g") (auto simp: and_then_def)
qed

text \<open>
  C9. A match that \<open>start_game\<close> starts at clock reading tk is in play with its start at tk
  and its end 90000 ms later, and every round of the loop keeps the end of a match in
  play 90000 ms after its start. Whatever the events and the tank updates of a round: if
  the round ends in play, its clock reading is less than 90000 ms after the start of the
  match; if it begins outside the game-over phase and ends in it, its clock reading is at
  least 90000 ms after the start of the match, and that start is the one the round began
  with or the clock reading at which an event of the round started a match.
  Along any run of calm rounds from a match in play that started at s, the start stays s,
  and the phase after the run is game over if some round of the run had a clock reading of
  at least s + 90000, and playing otherwise: so the phase changes in the first such round
  and in no earlier one. From the game-over phase, every run of settled rounds completes,
  stays in that phase and leaves every tank and every bullet as it is.
\<close>

theorem match_end_timing:
  "(start_game nt tk m g0 = Inr g \<longrightarrow>
      timer_ok g \<and> state g = playing \<and> match_start g = Some tk \<and> match_end g = Some (tk + 90000)) \<and>
   (timer_ok g \<and> run_round r g = Inr g' \<longrightarrow>
      timer_ok g' \<and>
      (state g' = playing \<longrightarrow> (\<exists>s. match_start g' = Some s \<and> r_now r < s + 90000)) \<and>
      (state g \<noteq> game_over \<and> state g' = game_over \<longrightarrow>
         (\<exists>s. match_start g' = Some s \<and> s + 90000 \<le> r_now r \<and>
              (match_start g = Some s \<or> (\<exists>p \<in> set (r_events r). snd (fst p) = s))))) \<and>
   (state g = playing \<and> running g \<and> match_start g = Some s \<and> match_end g = Some (s + 90000) \<and>
    list_all calm rs \<and> run_rounds rs g = Inr g' \<longrightarrow>
      match_start g' = Some s \<and>
      state g' = (if \<exists>r \<in> set rs. s + 90000 \<le> r_now r then game_over else playing)) \<and>
   (state g = game_over \<and> list_all settled rs \<longrightarrow>
      (\<exists>h. run_rounds rs g = Inr h \<and> state h = game_over \<and>
           tanks h = tanks g \<and> bullet_store h = bullet_store g))"
proof -
  have a: "timer_ok g \<and> state g = playing \<and> match_start g = Some tk \<and> match_end g = Some (tk + 90000)"
    if "start_game nt tk m g0 = Inr g"
    using start_game_Inr[OF that] start_game_timer[OF that] by (simp add: MATCH_SECONDS_def)
  have b: "timer_ok g' \<and>
      (state g' = playing \<longrightarrow> (\<exists>s. match_start g' = Some s \<and> r_now r < s + 90000)) \<and>
      (state g \<noteq> game_over \<and> state g' = game_over \<longrightarrow>
         (\<exists>s. match_start g' = Some s \<and> s + 90000 \<le> r_now r \<and>
              (match_start g = Some s \<or> (\<exists>p \<in> set (r_events r). snd (fst p) = s))))"
    if "timer_ok g \<and> run_round r g = Inr g'"
    using round_timer[of g r g'] round_in_play[of g r g'] round_never_early[of g r g'] that by blast
  have c: "match_start g' = Some s \<and>
      state g' = (if \<exists>r \<in> set rs. s + 90000 \<le> r_now r then game_over else playing)"
    if "state g = playing \<and> running g \<and> match_start g = Some s \<and> match_end g = Some (s + 90000) \<and>
        list_all calm rs \<and> run_rounds rs g = Inr g'"
    using rounds_from_playing[of g s rs g'] that by blast
  have d: "\<exists>h. run_rounds rs g = Inr h \<and> state h = game_over \<and>
           tanks h = tanks g \<and> bullet_store h = bullet_store g"
    if "state g = game_over \<and> list_all settled rs"
    using rounds_from_game_over[of g rs] that by blast
  from a b c d show ?thesis by blast
qed

theorem match_end_timing_witness:
  "(\<exists>g. start_game [] 5000 (Some pvp) (demo_game\<lparr>state := menu\<rparr>) = Inr g \<and> state g = playing \<and>
        match_start g = Some 5000 \<and> match_end g = Some 95000) \<and>
   (\<exists>h. run_round (idle_round 90000) demo_game = Inr h \<and> state h = game_over \<and>
        match_start h = Some 0) \<and>
   map_sum id state (run_rounds [idle_round 30000, idle_round 89999] demo_game) = Inr playing \<and>
   map_sum id state (run_rounds [idle_round 30000, idle_round 89999, idle_round 90000] demo_game)
     = Inr game_over \<and>
   map_sum id state (run_rounds [idle_round 30000, idle_round 89999, idle_round 90000, idle_round 95000]
     demo_game) = Inr game_over \<and>
   map_sum id tanks (run_rounds [idle_round 95000, idle_round 96000] (demo_game\<lparr>state := game_over\<rparr>))
     = Inr (tanks demo_game)"
proof -
  have p: "state demo_game = playing" "running demo_game" "match_start demo_game = Some 0"
    "match_end demo_game = Some (0 + 90000)"
    by (simp_all add: demo_game_def)
  have t: "timer_ok demo_game" by (simp add: timer_ok_def demo_game_def MATCH_SECONDS_def)
  have c: "calm (idle_round t)" "settled (idle_round t)" for t
    by (simp_all add: calm_def settled_def idle_round_def undisturbed_def quiet_def)
  have n: "r_now (idle_round t) = t" for t by (simp add: idle_round_def)
  obtain g where g: "start_game [] 5000 (Some pvp) (demo_game\<lparr>state := menu\<rparr>) = Inr g"
    using built_grid_cells[of 1920 1020 "[]"]
    by (auto simp: start_game_def and_then_def Let_def demo_game_def)
  from match_end_timing [where g = g and nt = "[]" and tk = 5000 and m = "Some pvp"
      and ?g0.0 = "demo_game\<lparr>state := menu\<rparr>"] g
  have w0: "state g = playing \<and> match_start g = Some 5000 \<and> match_end g = Some 95000" by simp
  have r1: "run_round (idle_round 90000) demo_game = Inr ((check_collisions demo_game)\<lparr>state := game_over\<rparr>)"
    by (simp add: run_round_idle p)
  from match_end_timing [where g = demo_game and r = "idle_round 90000"
      and g' = "(check_collisions demo_game)\<lparr>state := game_over\<rparr>"] t r1 p
  have w1: "match_start ((check_collisions demo_game)\<lparr>state := game_over\<rparr>) = Some 0"
    by (auto simp: idle_round_def)
  obtain h1 where h1: "run_rounds [idle_round 30000, idle_round 89999] demo_game = Inr h1"
    using run_rounds_idle[of "[idle_round 30000, idle_round 89999]" demo_game] by auto
  obtain h2 where h2: "run_rounds [idle_round 30000, idle_round 89999, idle_round 90000] demo_game = Inr h2"
    using run_rounds_idle[of "[idle_round 30000, idle_round 89999, idle_round 90000]" demo_game] by auto
  obtain h3 where h3: "run_rounds [idle_round 30000, idle_round 89999, idle_round 90000, idle_round 95000]
      demo_game = Inr h3"
    using run_rounds_idle[of "[idle_round 30000, idle_round 89999, idle_round 90000, idle_round 95000]" demo_game]
    by auto
  from match_end_timing [where g = demo_game and s = 0 and g' = h1
      and rs = "[idle_round 30000, idle_round 89999]"] p h1
  have w2: "state h1 = playing" by (simp add: c n)
  from match_end_timing [where g = demo_game and s = 0 and g' = h2
      and rs = "[idle_round 30000, idle_round 89999, idle_round 90000]"] p h2
  have w3: "state h2 = game_over" by (simp add: c n)
  from match_end_timing [where g = demo_game and s = 0 and g' = h3
      and rs = "[idle_round 30000, idle_round 89999, idle_round 90000, idle_round 95000]"] p h3
  have w4: "state h3 = game_over" by (simp add: c n)
  have s5: "state (demo_game\<lparr>state := game_over\<rparr>) = game_over \<and>
      list_all settled [idle_round 95000, idle_round 96000]"
    by (simp add: c)
  from match_end_timing [where g = "demo_game\<lparr>state := game_over\<rparr>"
      and rs = "[idle_round 95000, idle_round 96000]",
      THEN conjunct2, THEN conjunct2, THEN conjunct2, THEN mp, OF s5]
  obtain h5 where h5: "run_rounds [idle_round 95000, idle_round 96000] (demo_game\<lparr>state := game_over\<rparr>) = Inr h5"
    "tanks h5 = tanks (demo_game\<lparr>state := game_over\<rparr>)"
    by blast
  have w5: "map_sum id tanks (run_rounds [idle_round 95000, idle_round 96000] (demo_game\<lparr>state := game_over\<rparr>))
     = Inr (tanks demo_game)"
    unfolding h5(1) using h5(2) by simp
  from g w0 r1 w1 w2 w3 w4 w5 h1 h2 h3 show ?thesis by simp
qed


section \<open>The pathfinder\<close>

lemma least_in: "least m as \<in> set (m # as)"
  by (induction as arbitrary: m) (auto split: if_splits)

lemma heappop_nonempty:
  assumes "heap \<noteq> []"
  shows "\<exists>it rest. heappop heap = Inr (it, rest) \<and> it \<in> set heap \<and> set rest \<subseteq> set heap \<and>
           Suc (length rest) = length heap"
proof -
  from assms obtain a as where h: "heap = a # as" by (cases heap) auto
  have m: "least a as \<in> set heap" unfolding h by (rule least_in)
  have "heappop heap = Inr (least a as, remove1 (least a as) heap)"
    by (simp add: heappop_def h)
  moreover have "set (remove1 (least a as) heap) \<subseteq> set heap" by (rule set_remove1_subset)
  moreover have "Suc (length (remove1 (least a as) heap)) = length heap"
  proof -
    have "0 < length heap" using assms by simp
    then show ?thesis using m by (simp add: length_remove1)
  qed
  ultimately show ?thesis using m by blast
qed

lemma finite_universe: "finite (universe grid start)"
proof -
  have "{c. free grid c} \<subseteq> {0..<int (length grid)} \<times> {0..<int (length (grid ! 0))}"
    by (auto simp: free_def)
  then have "finite {c. free grid c}" by (rule finite_subset) simp
  then show ?thesis by (simp add: universe_def)
qed

lemma directions_nonzero: "d \<in> set directions \<Longrightarrow> d \<noteq> (0, 0)"
  by (auto simp: directions_def)

lemma step_cost_fifths:
  "\<exists>k'::nat. real k / 5 + (if b then 1.4 else 1) = real k' / 5 \<and> k < k'"
proof (cases b)
  case True
  have "real k / 5 + 1.4 = real (k + 7) / 5" by simp
  then show ?thesis using True by (intro exI[of _ "k + 7"]) simp
next
  case False
  have "real k / 5 + 1 = real (k + 5) / 5" by simp
  then show ?thesis using False by (intro exI[of _ "k + 5"]) simp
qed

lemma floor_fifths: "nat \<lfloor>5 * (real k / 5)\<rfloor> = k"
  by simp

lemma py_get_in_range:
  "0 \<le> i \<Longrightarrow> i < int (length xs) \<Longrightarrow> py_get xs i = Inr (xs ! nat i)"
  by (simp add: py_get_def py_index_def)

lemma relax_update:
  assumes inv: "astar_inv grid start s"
    and cur: "map_of (cost_so_far s) current = Some c"
    and np: "np \<noteq> current" "free grid np"
    and nc: "new_cost = real k' / 5" "c < new_cost"
    and better: "case map_of (cost_so_far s) np of None \<Rightarrow> True | Some old \<Rightarrow> new_cost < old"
    and s': "s' = s\<lparr>cost_so_far := AList.update np new_cost (cost_so_far s),
                     frontier := heappush (frontier s) (prio, np),
                     came_from := AList.update np (Some current) (came_from s)\<rparr>"
  shows "astar_inv grid start s' \<and> current \<in> dom (map_of (cost_so_far s')) \<and>
         (m12 grid start s', m12 grid start s) \<in> less_than <*lex*> less_than"
proof -
  let ?cost = "map_of (cost_so_far s)" and ?cf = "map_of (came_from s)"
  have cost': "map_of (cost_so_far s') = ?cost(np \<mapsto> new_cost)"
    and cf': "map_of (came_from s') = ?cf(np \<mapsto> Some current)"
    and fr': "frontier s' = (prio, np) # frontier s"
    by (simp_all add: s' update_conv' heappush_def)
  note I = inv[unfolded astar_inv_def]
  from I have dom_eq: "dom ?cf = dom ?cost" and st: "?cf start = Some None" "?cost start = Some 0"
    and fr: "\<forall>it \<in> set (frontier s). snd it \<in> dom ?cost"
    and nn: "\<forall>c. c \<noteq> start \<longrightarrow> ?cf c \<noteq> Some None"
    and chain: "\<forall>c p. ?cf c = Some (Some p) \<longrightarrow>
        (\<exists>cp cc. ?cost p = Some cp \<and> ?cost c = Some cc \<and> cp < cc)"
    and fifths: "\<forall>c v. ?cost c = Some v \<longrightarrow> (\<exists>k::nat. v = real k / 5)"
    and fr_free: "\<forall>c \<in> dom ?cost. c \<noteq> start \<longrightarrow> free grid c"
    by blast+
  have nonneg: "0 \<le> new_cost" using nc(1) by simp
  have ns: "np \<noteq> start"
  proof
    assume "np = start"
    with better st(2) have "new_cost < 0" by simp
    with nonneg show False by simp
  qed
  have i1: "dom (map_of (came_from s')) = dom (map_of (cost_so_far s'))"
    by (simp add: cost' cf' dom_eq)
  have i2: "map_of (came_from s') start = Some None" "map_of (cost_so_far s') start = Some 0"
    using ns st by (simp_all add: cost' cf')
  have i4: "\<forall>it \<in> set (frontier s'). snd it \<in> dom (map_of (cost_so_far s'))"
    using fr by (auto simp: fr' cost')
  have i5: "\<forall>c. c \<noteq> start \<longrightarrow> map_of (came_from s') c \<noteq> Some None"
    using nn by (simp add: cf')
  have i6: "\<exists>cp cc. map_of (cost_so_far s') p = Some cp \<and> map_of (cost_so_far s') x = Some cc \<and> cp < cc"
    if h: "map_of (came_from s') x = Some (Some p)" for x p
  proof (cases "x = np")
    case True
    with h have "p = current" by (simp add: cf')
    with True np(1) cur nc(2) show ?thesis by (simp add: cost')
  next
    case False
    with h have "?cf x = Some (Some p)" by (simp add: cf')
    with chain obtain cp cc where o: "?cost p = Some cp" "?cost x = Some cc" "cp < cc" by blast
    show ?thesis
    proof (cases "p = np")
      case True
      with o(1) better have "new_cost < cp" by simp
      with o True False show ?thesis by (simp add: cost')
    next
      case pf: False
      with o False show ?thesis by (simp add: cost')
    qed
  qed
  have i7: "\<forall>x v. map_of (cost_so_far s') x = Some v \<longrightarrow> (\<exists>k::nat. v = real k / 5)"
    using fifths nc(1) by (auto simp: cost')
  have i8: "\<forall>x \<in> dom (map_of (cost_so_far s')). x \<noteq> start \<longrightarrow> free grid x"
    using fr_free np(2) by (auto simp: cost')
  have inv': "astar_inv grid start s'"
    unfolding astar_inv_def using i1 i2 i4 i5 i6 i7 i8 by blast
  have cur': "current \<in> dom (map_of (cost_so_far s'))"
    using cur by (auto simp: cost')
  have fin: "finite (universe grid start - dom ?cost)"
    using finite_universe by blast
  have meas: "(m12 grid start s', m12 grid start s) \<in> less_than <*lex*> less_than"
  proof (cases "?cost np")
    case None
    have "np \<in> universe grid start - dom ?cost"
      using None np(2) by (auto simp: universe_def)
    then have "universe grid start - insert np (dom ?cost) \<subset> universe grid start - dom ?cost"
      by blast
    then have "card (universe grid start - insert np (dom ?cost)) < card (universe grid start - dom ?cost)"
      by (rule psubset_card_mono[OF fin])
    then show ?thesis by (simp add: m12_def cost')
  next
    case (Some old)
    with better have lt: "new_cost < old" by simp
    from Some fifths obtain ko :: nat where ko: "old = real ko / 5" by blast
    have d: "dom (map_of (cost_so_far s')) = dom ?cost"
      using Some by (auto simp: cost')
    have w_np: "weight s' np < weight s np"
      using lt Some by (simp add: weight_def cost' nc(1) ko)
    have w_other: "weight s' x \<le> weight s x" for x
    proof (cases "x = np")
      case True
      with w_np show ?thesis by simp
    next
      case False
      then show ?thesis by (simp add: weight_def cost')
    qed
    have "sum (weight s') (dom ?cost) < sum (weight s) (dom ?cost)"
      by (rule sum_strict_mono_ex1) (use w_other w_np Some in \<open>auto simp: finite_dom_map_of\<close>)
    then show ?thesis by (simp add: m12_def d)
  qed
  from inv' cur' meas show ?thesis by blast
qed

lemma in_grid_out:
  "\<not> (0 \<le> fst p \<and> fst p < int (length grid)) \<Longrightarrow> in_grid grid p = Inr False"
  by (auto simp: in_grid_def)

lemma in_grid_in:
  "0 \<le> fst p \<Longrightarrow> fst p < int (length grid) \<Longrightarrow>
   in_grid grid p = Inr (0 \<le> snd p \<and> snd p < int (length (grid ! 0)))"
  by (cases grid) (auto simp: in_grid_def and_then_def py_get_def py_index_def)

lemma relax_unfold:
  "relax grid goal current d s =
     and_then (in_grid grid (fst current + fst d, snd current + snd d)) (\<lambda>inside.
       if \<not> inside then Inr s
       else
         and_then (py_get grid (fst current + fst d)) (\<lambda>col.
         and_then (py_get col (snd current + snd d)) (\<lambda>occupied.
           if occupied then Inr s
           else
             and_then (dict_get (cost_so_far s) current) (\<lambda>c.
               if (case map_of (cost_so_far s) (fst current + fst d, snd current + snd d) of
                     None \<Rightarrow> True
                   | Some old \<Rightarrow> c + (if \<bar>fst d\<bar> + \<bar>snd d\<bar> = 2 then 1.4 else 1) < old)
               then
                 Inr (s\<lparr>cost_so_far := AList.update (fst current + fst d, snd current + snd d)
                           (c + (if \<bar>fst d\<bar> + \<bar>snd d\<bar> = 2 then 1.4 else 1)) (cost_so_far s),
                         frontier := heappush (frontier s)
                           (c + (if \<bar>fst d\<bar> + \<bar>snd d\<bar> = 2 then 1.4 else 1)
                              + of_int \<bar>fst current + fst d - fst goal\<bar>
                              + of_int \<bar>snd current + snd d - snd goal\<bar>,
                            (fst current + fst d, snd current + snd d)),
                         came_from := AList.update (fst current + fst d, snd current + snd d)
                           (Some current) (came_from s)\<rparr>)
               else Inr s))))"
  unfolding relax_def Let_def fst_conv snd_conv by (rule refl)

lemma progress_refl: "progress grid start s s"
  by (simp add: progress_def)

lemma progress_trans:
  assumes "progress grid start a b" "progress grid start b c"
  shows "progress grid start a c"
proof -
  have t: "trans (less_than <*lex*> less_than)" by (intro trans_lex_prod trans_less_than)
  show ?thesis
    using assms unfolding progress_def by (auto dest: transD[OF t])
qed

lemma relax_ok:
  assumes inv: "astar_inv grid start s"
    and rect: "\<forall>col \<in> set grid. length col = length (grid ! 0)"
    and cur: "current \<in> dom (map_of (cost_so_far s))"
    and d: "d \<in> set directions"
  shows "\<exists>s'. relax grid goal current d s = Inr s' \<and> astar_inv grid start s' \<and>
              current \<in> dom (map_of (cost_so_far s')) \<and> progress grid start s s'"
proof -
  define np where "np = (fst current + fst d, snd current + snd d)"
  have same: "astar_inv grid start s \<and> current \<in> dom (map_of (cost_so_far s)) \<and> progress grid start s s"
    using inv cur by (simp add: progress_refl)
  have np_fst: "fst np = fst current + fst d" and np_snd: "snd np = snd current + snd d"
    and np_pair: "(fst current + fst d, snd current + snd d) = np"
    by (simp_all add: np_def)
  show ?thesis
  proof (cases "0 \<le> fst np \<and> fst np < int (length grid)")
    case False
    then have "in_grid grid np = Inr False" by (rule in_grid_out)
    then have "relax grid goal current d s = Inr s"
      by (simp add: relax_unfold np_pair and_then_def)
    with same show ?thesis by simp
  next
    case xr: True
    then have ig: "in_grid grid np = Inr (0 \<le> snd np \<and> snd np < int (length (grid ! 0)))"
      by (simp add: in_grid_in)
    show ?thesis
    proof (cases "0 \<le> snd np \<and> snd np < int (length (grid ! 0))")
      case False
      then have "in_grid grid np = Inr False" using ig by simp
      then have "relax grid goal current d s = Inr s"
        by (simp add: relax_unfold np_pair and_then_def)
      with same show ?thesis by simp
    next
      case yr: True
      have ing: "in_grid grid np = Inr True" using ig yr by simp
      have col: "py_get grid (fst current + fst d) = Inr (grid ! nat (fst np))"
        using xr by (simp add: py_get_in_range np_fst)
      have "nat (fst np) < length grid" using xr by auto
      then have "grid ! nat (fst np) \<in> set grid" by (rule nth_mem)
      with rect have "length (grid ! nat (fst np)) = length (grid ! 0)" by blast
      with yr have occ: "py_get (grid ! nat (fst np)) (snd current + snd d)
          = Inr (grid ! nat (fst np) ! nat (snd np))"
        by (simp add: py_get_in_range np_snd)
      show ?thesis
      proof (cases "grid ! nat (fst np) ! nat (snd np)")
        case True
        then have "relax grid goal current d s = Inr s"
          by (simp add: relax_unfold np_pair ing col occ and_then_def)
        with same show ?thesis by simp
      next
        case False
        then have fr: "free grid np" using xr yr by (simp add: free_def)
        from cur obtain c where c: "map_of (cost_so_far s) current = Some c" by blast
        from inv c obtain k :: nat where k: "c = real k / 5" unfolding astar_inv_def by blast
        define new_cost where "new_cost = c + (if \<bar>fst d\<bar> + \<bar>snd d\<bar> = 2 then 1.4 else 1)"
        from step_cost_fifths[of k "\<bar>fst d\<bar> + \<bar>snd d\<bar> = 2"] obtain k' :: nat where
          k': "new_cost = real k' / 5" "k < k'" by (auto simp: new_cost_def k)
        then have lt: "c < new_cost" by (simp add: k)
        have ne: "np \<noteq> current"
          using directions_nonzero[OF d] by (cases d; cases current) (auto simp: np_def)
        define prio where "prio = new_cost + of_int \<bar>fst current + fst d - fst goal\<bar>
            + of_int \<bar>snd current + snd d - snd goal\<bar>"
        define s' where "s' = s\<lparr>cost_so_far := AList.update np new_cost (cost_so_far s),
                     frontier := heappush (frontier s) (prio, np),
                     came_from := AList.update np (Some current) (came_from s)\<rparr>"
        have dg: "dict_get (cost_so_far s) current = Inr c" using c by (simp add: dict_get_def)
        have r: "relax grid goal current d s =
            (if (case map_of (cost_so_far s) np of None \<Rightarrow> True | Some old \<Rightarrow> new_cost < old)
             then Inr s' else Inr s)"
          unfolding s'_def prio_def new_cost_def relax_unfold np_pair
          using False by (simp add: ing col occ dg and_then_def)
        show ?thesis
        proof (cases "case map_of (cost_so_far s) np of None \<Rightarrow> True | Some old \<Rightarrow> new_cost < old")
          case True
          from relax_update[OF inv c ne fr k'(1) lt True s'_def]
          have "astar_inv grid start s' \<and> current \<in> dom (map_of (cost_so_far s')) \<and>
                progress grid start s s'"
            by (simp add: progress_def)
          with r True show ?thesis by simp
        next
          case False
          with r same show ?thesis by simp
        qed
      qed
    qed
  qed
qed

lemma for_each_inv_rel:
  assumes step: "\<And>a s. a \<in> set xs \<Longrightarrow> J s \<Longrightarrow> \<exists>s'. body a s = Inr s' \<and> J s' \<and> Q s s'"
    and init: "J s"
    and refl: "\<And>s. Q s s"
    and trans: "\<And>a b c. Q a b \<Longrightarrow> Q b c \<Longrightarrow> Q a c"
  shows "\<exists>s'. for_each xs body s = Inr s' \<and> J s' \<and> Q s s'"
  using step init
proof (induction xs arbitrary: s)
  case Nil
  then show ?case by (simp add: refl)
next
  case (Cons a xs)
  from Cons.prems(1)[of a s] Cons.prems(2) obtain s1 where
    s1: "body a s = Inr s1" "J s1" "Q s s1" by auto
  have "\<exists>s'. for_each xs body s1 = Inr s' \<and> J s' \<and> Q s1 s'"
    using Cons.prems(1) s1(2) by (intro Cons.IH) auto
  then obtain s' where s': "for_each xs body s1 = Inr s'" "J s'" "Q s1 s'" by blast
  from trans[OF s1(3) s'(3)] s1(1) s'(1,2) show ?case by (simp add: and_then_def)
qed

lemma search_step_ok:
  assumes inv: "astar_inv grid start s"
    and rect: "\<forall>col \<in> set grid. length col = length (grid ! 0)"
    and cond: "search_cond s"
  shows "\<exists>s'. search_step grid goal s = Inr s' \<and> astar_inv grid start s' \<and>
              (m3 grid start (Inr s'), m3 grid start (Inr s))
                \<in> less_than <*lex*> less_than <*lex*> less_than"
proof -
  from cond have "frontier s \<noteq> []" by (simp add: search_cond_def)
  from heappop_nonempty[OF this] obtain it rest where
    pop: "heappop (frontier s) = Inr (it, rest)" "it \<in> set (frontier s)"
      "set rest \<subseteq> set (frontier s)" "Suc (length rest) = length (frontier s)" by blast
  define current where "current = snd it"
  define s1 where "s1 = s\<lparr>frontier := rest\<rparr>"
  have inv1: "astar_inv grid start s1"
    using inv pop(3) unfolding astar_inv_def s1_def by auto
  have cur: "current \<in> dom (map_of (cost_so_far s1))"
    using inv pop(2) unfolding astar_inv_def s1_def current_def by auto
  have m1: "m12 grid start s1 = m12 grid start s"
    by (simp add: m12_def s1_def weight_def)
  have len1: "length (frontier s1) < length (frontier s)"
    using pop(4) by (simp add: s1_def)
  have step: "search_step grid goal s =
      (if current = goal then Inr (s1\<lparr>broke := True\<rparr>)
       else for_each directions (relax grid goal current) s1)"
    by (simp add: search_step_def pop(1) and_then_def Let_def current_def s1_def)
  show ?thesis
  proof (cases "current = goal")
    case True
    have "astar_inv grid start (s1\<lparr>broke := True\<rparr>)"
      using inv1 unfolding astar_inv_def by simp
    moreover have "m12 grid start (s1\<lparr>broke := True\<rparr>) = m12 grid start s"
      using m1 by (simp add: m12_def weight_def)
    ultimately show ?thesis using True step len1 by (simp add: m3_def)
  next
    case False
    have "\<exists>s'. for_each directions (relax grid goal current) s1 = Inr s' \<and>
            (astar_inv grid start s' \<and> current \<in> dom (map_of (cost_so_far s'))) \<and>
            progress grid start s1 s'"
    proof (rule for_each_inv_rel)
      fix a t
      assume "a \<in> set directions" "astar_inv grid start t \<and> current \<in> dom (map_of (cost_so_far t))"
      then show "\<exists>s'. relax grid goal current a t = Inr s' \<and>
          (astar_inv grid start s' \<and> current \<in> dom (map_of (cost_so_far s'))) \<and> progress grid start t s'"
        using relax_ok[of grid start t current a goal] rect by blast
    next
      show "astar_inv grid start s1 \<and> current \<in> dom (map_of (cost_so_far s1))"
        using inv1 cur by simp
    next
      fix t show "progress grid start t t" by (rule progress_refl)
    next
      fix a b c assume "progress grid start a b" "progress grid start b c"
      then show "progress grid start a c" by (rule progress_trans)
    qed
    then obtain s' where s': "for_each directions (relax grid goal current) s1 = Inr s'"
      "astar_inv grid start s'" "progress grid start s1 s'" by blast
    have "(m3 grid start (Inr s'), m3 grid start (Inr s))
                \<in> less_than <*lex*> less_than <*lex*> less_than"
    proof (cases "s' = s1")
      case True
      with m1 len1 show ?thesis by (simp add: m3_def)
    next
      case ne: False
      with s'(3) have "(m12 grid start s', m12 grid start s) \<in> less_than <*lex*> less_than"
        by (simp add: progress_def m1)
      then show ?thesis
        by (cases "m12 grid start s'"; cases "m12 grid start s") (auto simp: m3_def)
    qed
    with s' False step show ?thesis by simp
  qed
qed

lemma search_terminates:
  assumes rect: "\<forall>col \<in> set grid. length col = length (grid ! 0)"
  shows "\<exists>s. search grid start goal = Some (Inr s) \<and> astar_inv grid start s \<and> \<not> search_cond s"
proof -
  let ?b = running_search
  let ?c = "\<lambda>r. and_then r (search_step grid goal)"
  let ?s0 = "Inr \<lparr>frontier = [(0, start)], came_from = [(start, None)],
             cost_so_far = [(start, 0)], broke = False\<rparr> :: py_error + astar_state"
  let ?R = "inv_image (less_than <*lex*> less_than <*lex*> less_than) (m3 grid start)"
  have init: "search_ok grid start ?s0"
    by (auto simp: search_ok_def astar_inv_def intro: exI[of _ "0::nat"])
  have stp: "search_ok grid start (?c r) \<and> (?c r, r) \<in> ?R" if "search_ok grid start r \<and> ?b r" for r
  proof -
    from that obtain s where r: "r = Inr s" "astar_inv grid start s" "search_cond s"
      by (cases r) (auto simp: search_ok_def running_search_def)
    from search_step_ok[OF r(2) rect r(3), of goal] obtain s' where
      "search_step grid goal s = Inr s'" "astar_inv grid start s'"
      "(m3 grid start (Inr s'), m3 grid start (Inr s)) \<in> less_than <*lex*> less_than <*lex*> less_than"
      by blast
    then show ?thesis by (simp add: r(1) and_then_def search_ok_def)
  qed
  have "\<exists>t. while_option ?b ?c ?s0 = Some t"
  proof (rule wf_rel_while_option_Some[where P = "search_ok grid start" and R = ?R])
    show "wf ?R" by (intro wf_inv_image wf_lex_prod wf_less_than)
  next
    fix r assume "search_ok grid start r \<and> ?b r"
    then show "(?c r, r) \<in> ?R" using stp by blast
  next
    fix r assume "search_ok grid start r \<and> ?b r"
    then show "search_ok grid start (?c r)" using stp by blast
  next
    show "search_ok grid start ?s0" by (rule init)
  qed
  then obtain t where t: "while_option ?b ?c ?s0 = Some t" by blast
  have "search_ok grid start t"
    by (rule while_option_rule[where P = "search_ok grid start", OF _ t init]) (use stp in blast)
  moreover have "\<not> ?b t" using t by (rule while_option_stop)
  ultimately obtain s where "t = Inr s" "astar_inv grid start s" "\<not> search_cond s"
    by (cases t) (auto simp: search_ok_def running_search_def)
  with t show ?thesis by (simp add: search_def)
qed

lemma walk_step_ok:
  assumes inv: "astar_inv grid start s"
    and ok: "walk_ok s r" and go: "walking start r"
  shows "walk_ok s (and_then r (walk_step (came_from s))) \<and>
         walk_measure s (and_then r (walk_step (came_from s))) < walk_measure s r"
proof -
  from ok obtain w where w: "r = Inr w" by (cases r) (auto simp: walk_ok_def)
  with ok obtain c where c: "fst w = Some c" "c \<in> dom (map_of (cost_so_far s))"
    by (cases "fst w") (auto simp: walk_ok_def)
  obtain path where "w = (Some c, path)" using c(1) by (cases w) auto
  with w c have r: "r = Inr (Some c, path)" "c \<in> dom (map_of (cost_so_far s))" by simp_all
  from go r have ns: "c \<noteq> start" by (simp add: walking_def)
  note I = inv[unfolded astar_inv_def]
  from I have dom_eq: "dom (map_of (came_from s)) = dom (map_of (cost_so_far s))"
    and nn: "\<forall>c. c \<noteq> start \<longrightarrow> map_of (came_from s) c \<noteq> Some None"
    and chain: "\<forall>c p. map_of (came_from s) c = Some (Some p) \<longrightarrow>
        (\<exists>cp cc. map_of (cost_so_far s) p = Some cp \<and> map_of (cost_so_far s) c = Some cc \<and> cp < cc)"
    and fifths: "\<forall>c v. map_of (cost_so_far s) c = Some v \<longrightarrow> (\<exists>k::nat. v = real k / 5)"
    by blast+
  from dom_eq r(2) have "c \<in> dom (map_of (came_from s))" by blast
  then obtain v where v: "map_of (came_from s) c = Some v" by blast
  have "v \<noteq> None"
  proof
    assume "v = None"
    with v have "map_of (came_from s) c = Some None" by simp
    with nn ns show False by blast
  qed
  then obtain p where p: "v = Some p" by blast
  with chain v obtain cp cc where o: "map_of (cost_so_far s) p = Some cp"
    "map_of (cost_so_far s) c = Some cc" "cp < cc" by blast
  from fifths o obtain kp kc :: nat where k: "cp = real kp / 5" "cc = real kc / 5" by blast
  have st: "and_then r (walk_step (came_from s)) =
      Inr (Some p, path @ [(fst c * TILE_WIDTH + TILE_WIDTH div 2,
                           snd c * TILE_HEIGHT + TILE_HEIGHT div 2)])"
    by (simp add: r(1) and_then_def walk_step_def dict_get_def v p)
  have "weight s p < weight s c"
    using o k by (simp add: weight_def)
  with o(1) show ?thesis unfolding st by (simp add: r(1) walk_ok_def walk_measure_def domI)
qed

lemma reconstruct_terminates:
  assumes inv: "astar_inv grid start s"
    and goal: "map_of (came_from s) goal \<noteq> None"
  shows "\<exists>w. reconstruct (came_from s) start goal = Some (Inr w)"
proof -
  let ?b = "walking start"
  let ?c = "\<lambda>r. and_then r (walk_step (came_from s))"
  let ?r0 = "Inr (Some goal, []) :: py_error + cell option \<times> (int \<times> int) list"
  from inv goal have "goal \<in> dom (map_of (cost_so_far s))"
    unfolding astar_inv_def by blast
  then have init: "walk_ok s ?r0" by (simp add: walk_ok_def)
  have stp: "walk_ok s (?c r) \<and> walk_measure s (?c r) < walk_measure s r"
    if "walk_ok s r" "?b r" for r
    using walk_step_ok[OF inv that] .
  have "\<exists>t. while_option ?b ?c ?r0 = Some t"
    by (rule measure_while_option_Some[where P = "walk_ok s" and f = "walk_measure s"])
      (use stp init in auto)
  then obtain t where t: "while_option ?b ?c ?r0 = Some t" by blast
  have "walk_ok s t"
    by (rule while_option_rule[where P = "walk_ok s", OF _ t init]) (use stp in blast)
  then obtain w where "t = Inr w" by (cases t) (auto simp: walk_ok_def)
  with t show ?thesis by (simp add: reconstruct_def)
qed

lemma built_grid_rectangular:
  assumes "create_grid_map sw sh tiles = Inr grid"
  shows "\<forall>col \<in> set grid. length col = length (grid ! 0)"
proof -
  from built_grid_cells[of sw sh tiles] assms have
    len: "length grid = nat (max 1 (sw div TILE_WIDTH))"
    and cols: "\<forall>x < length grid. length (grid ! x) = nat (max 1 (sh div TILE_HEIGHT))"
    by auto
  from len have "0 < length grid" by simp
  with cols have "length (grid ! 0) = nat (max 1 (sh div TILE_HEIGHT))" by blast
  with cols show ?thesis by (auto simp: in_set_conv_nth)
qed

text \<open>
  C8. On a grid whose columns all have the length of the first one (as the grids of
  \<open>create_grid_map\<close> have), the pathfinder ends and raises nothing: it returns a path of
  at most 10 waypoints. The path is empty when the start cell is the goal cell, when the
  goal cell is occupied or outside the grid, and when the search loop has ended (heap
  empty, 200 cells in \<open>came_from\<close>, or goal popped) without the goal among the cells
  reached.
\<close>

theorem astar_never_raises:
  assumes "\<forall>col \<in> set grid. length col = length (grid ! 0)"
  shows "\<exists>path. astar_pathfind self target grid = Some (Inr path) \<and> length path \<le> 10 \<and>
           (cell_of self = cell_of target \<longrightarrow> path = []) \<and>
           (\<not> free grid (cell_of target) \<longrightarrow> path = []) \<and>
           (\<forall>s. search grid (cell_of self) (cell_of target) = Some (Inr s) \<and>
                map_of (came_from s) (cell_of target) = None \<longrightarrow> path = [])"
proof (cases "cell_of self = cell_of target")
  case True
  then have "astar_pathfind self target grid = Some (Inr [])"
    by (simp add: astar_pathfind_def)
  then show ?thesis by simp
next
  case False
  from search_terminates[OF assms, of "cell_of self" "cell_of target"] obtain s where
    s: "search grid (cell_of self) (cell_of target) = Some (Inr s)"
      "astar_inv grid (cell_of self) s" by blast
  show ?thesis
  proof (cases "map_of (came_from s) (cell_of target) = None")
    case True
    then have "astar_pathfind self target grid = Some (Inr [])"
      using False s(1) by (simp add: astar_pathfind_def Let_def)
    then show ?thesis by simp
  next
    case found: False
    from reconstruct_terminates[OF s(2) found] obtain w where
      w: "reconstruct (came_from s) (cell_of self) (cell_of target) = Some (Inr w)" by blast
    have res: "astar_pathfind self target grid = Some (Inr (take 10 (rev (snd w))))"
      by (cases w) (simp add: astar_pathfind_def Let_def False s(1) found w)
    have "cell_of target \<in> dom (map_of (cost_so_far s))"
      using s(2) found unfolding astar_inv_def by blast
    with s(2) False have fr: "free grid (cell_of target)"
      unfolding astar_inv_def by metis
    have "\<forall>s'. search grid (cell_of self) (cell_of target) = Some (Inr s') \<and>
                map_of (came_from s') (cell_of target) = None \<longrightarrow> take 10 (rev (snd w)) = []"
      using s(1) found by auto
    with res fr False show ?thesis by simp
  qed
qed

theorem astar_never_raises_witness:
  "astar_pathfind (Tank_init 100 60 True False None) (Tank_init 240 100 False False None) open5
     = Some (Inr []) \<and>
   astar_pathfind (Tank_init 100 60 True False None) (Tank_init 130 80 False False None) open5
     = Some (Inr [])"
proof -
  have r: "\<forall>col \<in> set open5. length col = length (open5 ! 0)"
    by (simp add: open5_def)
  have occ: "\<not> free open5 (cell_of (Tank_init 240 100 False False None))"
    by (simp add: free_def cell_of_def Tank_init_def TILE_WIDTH_def TILE_HEIGHT_def open5_def)
  have same: "cell_of (Tank_init 100 60 True False None) = cell_of (Tank_init 130 80 False False None)"
    by (simp add: cell_of_def Tank_init_def TILE_WIDTH_def TILE_HEIGHT_def)
  from astar_never_raises [OF r, of "Tank_init 100 60 True False None" "Tank_init 240 100 False False None"]
    astar_never_raises [OF r, of "Tank_init 100 60 True False None" "Tank_init 130 80 False False None"]
    occ same
  show ?thesis by auto
qed

end
